theory Spec2Isabelle
  imports Main "HOL-Library.Word" "HOL-Library.Monad_Syntax" "HOL-Library.Multiset"
begin

unbundle bit_operations_syntax

section \<open>Machine model\<close>

text \<open>
  The header works on \<open>uint64_t\<close> words, \<open>uint32_t\<close> sizes and counters, \<open>int\<close> loop
  counters and SIMD registers of 128, 256 and 512 bits.  Unsigned arithmetic is word
  arithmetic: it wraps.
\<close>

type_synonym u8 = "8 word"
type_synonym u16 = "16 word"
type_synonym u32 = "32 word"
type_synonym u64 = "64 word"
type_synonym m128i = "128 word"
type_synonym m256i = "256 word"
type_synonym m512i = "512 word"

text \<open>
  A pointer into an array is the array with an element offset, so that \<open>&vals[left]\<close> is
  \<open>(vals, left)\<close>.  A read \<open>p[i]\<close> outside the array has no defined value in C: \<open>rd\<close>
  returns \<open>None\<close> there, and \<open>None\<close> stands throughout for "the C program has no defined
  result" (a read outside an array, a signed overflow, a shift by at least the width of
  the type, or a loop that never exits).
\<close>

type_synonym 'w ptr = "'w list \<times> nat"

definition rd :: "'w ptr \<Rightarrow> int \<Rightarrow> 'w option" where
  "rd p i = (case p of (a, off) \<Rightarrow>
     if 0 \<le> int off + i \<and> int off + i < int (length a)
     then Some (a ! nat (int off + i)) else None)"

text \<open>
  \<open>int\<close> is 32 bits wide.  Signed addition that leaves the range is undefined
  (\<open>int_add\<close> returns \<open>None\<close>).  In a comparison of an \<open>int\<close> with a \<open>uint32_t\<close> the
  \<open>int\<close> is converted to \<open>unsigned\<close> (\<open>u32_of_int\<close>); initialising an \<open>int\<close> from a
  \<open>uint32_t\<close> keeps the bit pattern (\<open>int_of_u32\<close>, as GCC and Clang define it).
\<close>

definition INT_MAX :: int where
  "INT_MAX = 2147483647"

definition int_add :: "int \<Rightarrow> int \<Rightarrow> int option" where
  "int_add i k = (if - INT_MAX - 1 \<le> i + k \<and> i + k \<le> INT_MAX then Some (i + k) else None)"

definition u32_of_int :: "int \<Rightarrow> u32" where
  "u32_of_int i = word_of_int i"

definition int_of_u32 :: "u32 \<Rightarrow> int" where
  "int_of_u32 x = sint x"

text \<open>
  \<open>E1 << E2\<close> on a 64-bit \<open>long\<close>.  The header includes \<open>x86intrin.h\<close> and so
  builds for x86 only, where the shift and bit-test instructions that compilers emit for
  a 64-bit operand take the count modulo 64; this is the value of the model, also for the
  counts of 64 and more, which C leaves undefined.  For \<open>1L << 63\<close> it is the bit
  pattern, as GCC and Clang define it.
\<close>

definition shl_long :: "u64 \<Rightarrow> u32 \<Rightarrow> u64" where
  "shl_long x n = push_bit (unat n mod 64) x"

section \<open>Population count\<close>

definition popcount :: "'a::len word \<Rightarrow> nat" where
  "popcount w = length (filter (bit w) [0..<LENGTH('a)])"

text \<open>
  \<open>FIC_POPCOUNT\<close> is \<open>_mm_popcnt_u64\<close> or \<open>__builtin_popcountll\<close>; its value, between 0
  and 64, is added to a \<open>uint64_t\<close> wherever it is used.
\<close>

definition FIC_POPCOUNT :: "u64 \<Rightarrow> u64" where
  "FIC_POPCOUNT x = of_nat (popcount x)"

section \<open>Scalar kernel\<close>

text \<open>
  The first loop of \<open>intersect_bitmaps_scalar\<close>:
  \<^verbatim>\<open>for (; i + 4 < n_ints; i += 4) { cnt += FIC_POPCOUNT(b1[i+0] & b2[i+0]); ... }\<close>
  with \<open>int i\<close> and \<open>uint32_t n_ints\<close>.  It returns the counter and the count.
\<close>

function and_popcount_unrolled ::
  "u64 ptr \<Rightarrow> u64 ptr \<Rightarrow> u32 \<Rightarrow> int \<Rightarrow> u64 \<Rightarrow> (int \<times> u64) option" where
  "and_popcount_unrolled b1 b2 n_ints i cnt =
     (case int_add i 4 of
        None \<Rightarrow> None
      | Some i4 \<Rightarrow>
          if u32_of_int i4 < n_ints then do {
            x0 \<leftarrow> rd b1 (i + 0); y0 \<leftarrow> rd b2 (i + 0);
            x1 \<leftarrow> rd b1 (i + 1); y1 \<leftarrow> rd b2 (i + 1);
            x2 \<leftarrow> rd b1 (i + 2); y2 \<leftarrow> rd b2 (i + 2);
            x3 \<leftarrow> rd b1 (i + 3); y3 \<leftarrow> rd b2 (i + 3);
            and_popcount_unrolled b1 b2 n_ints i4
              (cnt + FIC_POPCOUNT (x0 AND y0) + FIC_POPCOUNT (x1 AND y1)
                   + FIC_POPCOUNT (x2 AND y2) + FIC_POPCOUNT (x3 AND y3))
          } else Some (i, cnt))"
  by pat_completeness auto
termination
  by (relation "measure (\<lambda>(b1, b2, n_ints, i, cnt). nat (INT_MAX + 1 - i))")
    (auto simp add: int_add_def split: if_splits)

declare and_popcount_unrolled.simps [simp del]

text \<open>
  The loop that ends every dense kernel:
  \<^verbatim>\<open>for (; i < n_ints; ++i) cnt += FIC_POPCOUNT(b1[i] & b2[i]);\<close>
  again with \<open>int i\<close>.
\<close>

function and_popcount_tail ::
  "u64 ptr \<Rightarrow> u64 ptr \<Rightarrow> u32 \<Rightarrow> int \<Rightarrow> u64 \<Rightarrow> u64 option" where
  "and_popcount_tail b1 b2 n_ints i cnt =
     (if u32_of_int i < n_ints then do {
        x \<leftarrow> rd b1 i; y \<leftarrow> rd b2 i;
        i' \<leftarrow> int_add i 1;
        and_popcount_tail b1 b2 n_ints i' (cnt + FIC_POPCOUNT (x AND y))
      } else Some cnt)"
  by pat_completeness auto
termination
  by (relation "measure (\<lambda>(b1, b2, n_ints, i, cnt). nat (INT_MAX + 1 - i))")
    (auto simp add: int_add_def split: if_splits)

declare and_popcount_tail.simps [simp del]

definition intersect_bitmaps_scalar :: "u64 ptr \<Rightarrow> u64 ptr \<Rightarrow> u32 \<Rightarrow> u64 option" where
  "intersect_bitmaps_scalar b1 b2 n_ints = do {
     (i, cnt) \<leftarrow> and_popcount_unrolled b1 b2 n_ints 0 0;
     and_popcount_tail b1 b2 n_ints i cnt
   }"

section \<open>Sparse positional kernel\<close>

text \<open>\<^verbatim>\<open>#define MOD(x) (( (x) * 64 ) >> 6)\<close> on a \<open>uint32_t\<close>.\<close>

definition MOD :: "u32 \<Rightarrow> u32" where
  "MOD x = drop_bit 6 (x * 64)"

text \<open>
  Either branch of \<open>intersect_bitmaps_scalar_list\<close> is the loop
  \<^verbatim>\<open>for (int i = 0; i < n; ++i) cnt += ((b[l[i] >> 6] & (1L << MOD(l[i]))) != 0);\<close>
  (the prefetch that follows has no result).
\<close>

function probe_positions ::
  "u64 ptr \<Rightarrow> u32 ptr \<Rightarrow> u32 \<Rightarrow> int \<Rightarrow> u64 \<Rightarrow> u64 option" where
  "probe_positions b l n i cnt =
     (if u32_of_int i < n then do {
        p \<leftarrow> rd l i;
        w \<leftarrow> rd b (uint (drop_bit 6 p));
        i' \<leftarrow> int_add i 1;
        probe_positions b l n i' (cnt + (if w AND shl_long 1 (MOD p) \<noteq> 0 then 1 else 0))
      } else Some cnt)"
  by pat_completeness auto
termination
  by (relation "measure (\<lambda>(b, l, n, i, cnt). nat (INT_MAX + 1 - i))")
    (auto simp add: int_add_def split: if_splits)

declare probe_positions.simps [simp del]

definition intersect_bitmaps_scalar_list ::
  "u64 ptr \<Rightarrow> u64 ptr \<Rightarrow> u32 ptr \<Rightarrow> u32 ptr \<Rightarrow> u32 \<Rightarrow> u32 \<Rightarrow> u64 option" where
  "intersect_bitmaps_scalar_list b1 b2 l1 l2 n1 n2 =
     (if n1 < n2 then probe_positions b2 l1 n1 0 0 else probe_positions b1 l2 n2 0 0)"

section \<open>SIMD registers\<close>

text \<open>
  A register is a word of its width; \<open>lane k v\<close> is its \<open>k\<close>-th lane, counted from the
  least significant end, at the lane width of the result type, and \<open>cat_lanes\<close> puts lanes
  together again (the first lane is the least significant one, as in memory).
\<close>

definition lane :: "nat \<Rightarrow> 'a::len word \<Rightarrow> 'b::len word" where
  "lane k v = ucast (drop_bit (k * LENGTH('b)) v)"

definition lanes :: "'a::len word \<Rightarrow> 'b::len word list" where
  "lanes v = map (\<lambda>k. lane k v) [0..<LENGTH('a) div LENGTH('b)]"

fun cat_lanes :: "'b::len word list \<Rightarrow> 'a::len word" where
  "cat_lanes [] = 0"
| "cat_lanes (w # ws) = ucast w OR push_bit LENGTH('b) (cat_lanes ws)"

text \<open>
  \<open>((const __m128i* ) b)[i]\<close>, and the same at the other widths: the register at index \<open>i\<close>
  of an array of 64-bit words read as an array of registers of \<open>n\<close> words each.
\<close>

definition load_si :: "nat \<Rightarrow> u64 ptr \<Rightarrow> u64 \<Rightarrow> 'a::len word option" where
  "load_si n p i = do {
     ws \<leftarrow> those (map (\<lambda>k. rd p (int n * uint i + int k)) [0..<n]);
     Some (cat_lanes ws)
   }"

text \<open>The sixteen blocks \<open>data1[i+k] & data2[i+k]\<close> that one round of a kernel reads.\<close>

definition and_blocks :: "nat \<Rightarrow> u64 ptr \<Rightarrow> u64 ptr \<Rightarrow> u64 \<Rightarrow> 'a::len word list option" where
  "and_blocks n data1 data2 i =
     those (map (\<lambda>k. do {
        a \<leftarrow> load_si n data1 (i + of_nat k);
        b \<leftarrow> load_si n data2 (i + of_nat k);
        Some (a AND b)
      }) [0..<16])"

text \<open>The intrinsics the kernels use, each at the lane width of its name.\<close>

definition mm_set1_epi8 :: "u8 \<Rightarrow> 'a::len word" where
  "mm_set1_epi8 x = cat_lanes (replicate (LENGTH('a) div 8) x)"

definition mm_setr_epi8 :: "u8 list \<Rightarrow> 'a::len word" where
  "mm_setr_epi8 bs = cat_lanes bs"

definition mm_srli_epi16 :: "'a::len word \<Rightarrow> nat \<Rightarrow> 'a word" where
  "mm_srli_epi16 v k = cat_lanes (map (drop_bit k) (lanes v :: u16 list))"

definition mm_slli_epi64 :: "'a::len word \<Rightarrow> nat \<Rightarrow> 'a word" where
  "mm_slli_epi64 v k = cat_lanes (map (push_bit k) (lanes v :: u64 list))"

definition mm_add_epi64 :: "'a::len word \<Rightarrow> 'a word \<Rightarrow> 'a word" where
  "mm_add_epi64 a b = cat_lanes (map2 (+) (lanes a :: u64 list) (lanes b))"

definition mm_add_epi8 :: "'a::len word \<Rightarrow> 'a word \<Rightarrow> 'a word" where
  "mm_add_epi8 a b = cat_lanes (map2 (+) (lanes a :: u8 list) (lanes b))"

definition mm_sub_epi8 :: "'a::len word \<Rightarrow> 'a word \<Rightarrow> 'a word" where
  "mm_sub_epi8 a b = cat_lanes (map2 (-) (lanes a :: u8 list) (lanes b))"

text \<open>
  \<open>shuffle_epi8 (a, b)\<close>: byte \<open>i\<close> of the result is 0 when the top bit of byte \<open>i\<close> of
  \<open>b\<close> is set, and otherwise the byte of \<open>a\<close>, in the same 128-bit half, that the low four
  bits of that byte of \<open>b\<close> select.
\<close>

definition mm_shuffle_epi8 :: "'a::len word \<Rightarrow> 'a word \<Rightarrow> 'a word" where
  "mm_shuffle_epi8 a b =
     cat_lanes (map (\<lambda>i. let s = (lane i b :: u8) in
                  if bit s 7 then 0 else (lane (16 * (i div 16) + unat (s AND 0x0F)) a :: u8))
                [0..<LENGTH('a) div 8])"

text \<open>
  \<open>sad_epu8 (a, b)\<close>: each 64-bit lane of the result is the sum of the absolute
  differences of the eight unsigned bytes of that lane of \<open>a\<close> and of \<open>b\<close>.
\<close>

definition absdiff :: "u8 \<Rightarrow> u8 \<Rightarrow> nat" where
  "absdiff x y = (if unat x \<le> unat y then unat y - unat x else unat x - unat y)"

definition mm_sad_epu8 :: "'a::len word \<Rightarrow> 'a word \<Rightarrow> 'a word" where
  "mm_sad_epu8 a b =
     cat_lanes (map (\<lambda>j. (of_nat (sum_list (map (\<lambda>k. absdiff (lane (8 * j + k) a) (lane (8 * j + k) b))
                                             [0..<8])) :: u64))
                [0..<LENGTH('a) div 64])"

section \<open>Carry-save adders\<close>

text \<open>
  \<open>CSA128\<close> and its siblings write \<open>*h\<close> and \<open>*l\<close>; the model returns the pair \<open>(h, l)\<close>.
\<close>

definition CSA128 :: "m128i \<Rightarrow> m128i \<Rightarrow> m128i \<Rightarrow> m128i \<times> m128i" where
  "CSA128 a b c = (let u = a XOR b in ((a AND b) OR (u AND c), u XOR c))"

definition CSA256 :: "m256i \<Rightarrow> m256i \<Rightarrow> m256i \<Rightarrow> m256i \<times> m256i" where
  "CSA256 a b c = (let u = a XOR b in ((a AND b) OR (u AND c), u XOR c))"

text \<open>
  \<open>_mm512_ternarylogic_epi32 (a, b, c, imm8)\<close>: at every bit position the three operand
  bits form the index \<open>4 * a + 2 * b + c\<close> into the truth table \<open>imm8\<close>, and the bit of
  \<open>imm8\<close> at that index is the result bit.  \<open>minterm a b c k\<close> has a one exactly at the
  positions whose index is \<open>k\<close>.
\<close>

definition sel :: "bool \<Rightarrow> 'a::len word \<Rightarrow> 'a word" where
  "sel s x = (if s then x else NOT x)"

definition minterm :: "'a::len word \<Rightarrow> 'a word \<Rightarrow> 'a word \<Rightarrow> nat \<Rightarrow> 'a word" where
  "minterm a b c k = sel (odd (k div 4)) a AND sel (odd (k div 2)) b AND sel (odd k) c"

definition ternarylogic :: "'a::len word \<Rightarrow> 'a word \<Rightarrow> 'a word \<Rightarrow> 8 word \<Rightarrow> 'a word" where
  "ternarylogic a b c imm8 =
     foldr (\<lambda>k r. (if bit imm8 k then minterm a b c k else 0) OR r)
       [0, 1, 2, 3, 4, 5, 6, 7] 0"

definition CSA512 :: "m512i \<Rightarrow> m512i \<Rightarrow> m512i \<Rightarrow> m512i \<times> m512i" where
  "CSA512 a b c = (ternarylogic c b a 0xe8, ternarylogic c b a 0x96)"

section \<open>Harley-Seal kernels\<close>

text \<open>
  The body of the main loop is the same at the three widths but for the adder: fifteen
  carry-save additions over the sixteen blocks \<open>d\<close>, from the accumulators
  \<open>(ones, twos, fours, eights)\<close> to the new accumulators and \<open>sixteens\<close>.
\<close>

definition csa_round ::
  "('v \<Rightarrow> 'v \<Rightarrow> 'v \<Rightarrow> 'v \<times> 'v) \<Rightarrow> 'v list \<Rightarrow> 'v \<times> 'v \<times> 'v \<times> 'v \<Rightarrow> 'v \<times> 'v \<times> 'v \<times> 'v \<times> 'v" where
  "csa_round CSA d s = (case s of (ones, twos, fours, eights) \<Rightarrow>
     let (twosA, ones) = CSA ones (d ! 0) (d ! 1);
         (twosB, ones) = CSA ones (d ! 2) (d ! 3);
         (foursA, twos) = CSA twos twosA twosB;
         (twosA, ones) = CSA ones (d ! 4) (d ! 5);
         (twosB, ones) = CSA ones (d ! 6) (d ! 7);
         (foursB, twos) = CSA twos twosA twosB;
         (eightsA, fours) = CSA fours foursA foursB;
         (twosA, ones) = CSA ones (d ! 8) (d ! 9);
         (twosB, ones) = CSA ones (d ! 10) (d ! 11);
         (foursA, twos) = CSA twos twosA twosB;
         (twosA, ones) = CSA ones (d ! 12) (d ! 13);
         (twosB, ones) = CSA ones (d ! 14) (d ! 15);
         (foursB, twos) = CSA twos twosA twosB;
         (eightsB, fours) = CSA fours foursA foursB;
         (sixteens, eights) = CSA eights eightsA eightsB
     in (ones, twos, fours, eights, sixteens))"

subsection \<open>SSE4.1\<close>

definition mm_cvtsi128_si64 :: "m128i \<Rightarrow> u64" where
  "mm_cvtsi128_si64 a = lane 0 a"

definition mm_unpackhi_epi64 :: "m128i \<Rightarrow> m128i \<Rightarrow> m128i" where
  "mm_unpackhi_epi64 a b = cat_lanes [lane 1 a :: u64, lane 1 b]"

definition FIC_POPCOUNT_SSE :: "m128i \<Rightarrow> u64" where
  "FIC_POPCOUNT_SSE n =
     FIC_POPCOUNT (mm_cvtsi128_si64 n) + FIC_POPCOUNT (mm_cvtsi128_si64 (mm_unpackhi_epi64 n n))"

text \<open>
  The main loop of \<open>popcnt_sse4_csa_intersect\<close>,
  \<^verbatim>\<open>for (; i < limit; i += 16) { ...; cnt64 += FIC_POPCOUNT_SSE(sixteens); }\<close>
  with \<open>uint64_t i\<close>.
\<close>

partial_function (option) sse4_csa_loop ::
  "u64 ptr \<Rightarrow> u64 ptr \<Rightarrow> u64 \<Rightarrow> u64 \<Rightarrow> m128i \<times> m128i \<times> m128i \<times> m128i \<Rightarrow> u64
     \<Rightarrow> (u64 \<times> (m128i \<times> m128i \<times> m128i \<times> m128i) \<times> u64) option" where
  "sse4_csa_loop data1 data2 limit i s cnt64 =
     (if i < limit then do {
        d \<leftarrow> and_blocks 2 data1 data2 i;
        (case csa_round CSA128 d s of (ones, twos, fours, eights, sixteens) \<Rightarrow>
           sse4_csa_loop data1 data2 limit (i + 16) (ones, twos, fours, eights)
             (cnt64 + FIC_POPCOUNT_SSE sixteens))
      } else Some (i, s, cnt64))"

declare sse4_csa_loop.simps [code]

text \<open>
  Its last loop assigns:
  \<^verbatim>\<open>for (; i < size; ++i) cnt64 = FIC_POPCOUNT_SSE(data1[i] & data2[i]);\<close>
\<close>

function sse4_tail :: "u64 ptr \<Rightarrow> u64 ptr \<Rightarrow> u64 \<Rightarrow> u64 \<Rightarrow> u64 \<Rightarrow> u64 option" where
  "sse4_tail data1 data2 sz i cnt64 =
     (if i < sz then do {
        a \<leftarrow> load_si 2 data1 i;
        b \<leftarrow> load_si 2 data2 i;
        sse4_tail data1 data2 sz (i + 1) (FIC_POPCOUNT_SSE (a AND b))
      } else Some cnt64)"
  by pat_completeness auto
termination
proof (relation "measure (\<lambda>(data1, data2, sz, i, cnt64). unat sz - unat i)")
  fix sz i :: u64
  assume "i < sz"
  then have "unat sz - unat (i + 1) < unat sz - unat i"
    by unat_arith
  then show "((data1, data2, sz, i + 1, FIC_POPCOUNT_SSE (a AND b)), (data1, data2, sz, i, cnt64))
      \<in> measure (\<lambda>(data1, data2, sz, i, cnt64). unat sz - unat i)"
    for data1 data2 :: "u64 ptr" and a b :: m128i and cnt64 :: u64
    by simp
qed simp

declare sse4_tail.simps [simp del]

definition popcnt_sse4_csa_intersect :: "u64 ptr \<Rightarrow> u64 ptr \<Rightarrow> u64 \<Rightarrow> u64 option" where
  "popcnt_sse4_csa_intersect data1 data2 sz = do {
     let limit = sz - sz mod 16;
     (i, (ones, twos, fours, eights), cnt64) \<leftarrow> sse4_csa_loop data1 data2 limit 0 (0, 0, 0, 0) 0;
     let cnt64 = push_bit 4 cnt64;
     let cnt64 = cnt64 + push_bit 3 (FIC_POPCOUNT_SSE eights);
     let cnt64 = cnt64 + push_bit 2 (FIC_POPCOUNT_SSE fours);
     let cnt64 = cnt64 + push_bit 1 (FIC_POPCOUNT_SSE twos);
     let cnt64 = cnt64 + push_bit 0 (FIC_POPCOUNT_SSE ones);
     sse4_tail data1 data2 sz i cnt64
   }"

definition intersect_bitmaps_sse4 :: "u64 ptr \<Rightarrow> u64 ptr \<Rightarrow> u32 \<Rightarrow> u64 option" where
  "intersect_bitmaps_sse4 b1 b2 n_ints = do {
     let n_cycles = n_ints div 2;
     c \<leftarrow> popcnt_sse4_csa_intersect b1 b2 (ucast n_cycles);
     and_popcount_tail b1 b2 n_ints (int_of_u32 (n_cycles * 2)) (0 + c)
   }"

subsection \<open>AVX2 and AVX-512\<close>

definition popcnt256 :: "m256i \<Rightarrow> m256i" where
  "popcnt256 v =
     (let lookup1 = mm_setr_epi8
            [4, 5, 5, 6, 5, 6, 6, 7,
             5, 6, 6, 7, 6, 7, 7, 8,
             4, 5, 5, 6, 5, 6, 6, 7,
             5, 6, 6, 7, 6, 7, 7, 8];
          lookup2 = mm_setr_epi8
            [4, 3, 3, 2, 3, 2, 2, 1,
             3, 2, 2, 1, 2, 1, 1, 0,
             4, 3, 3, 2, 3, 2, 2, 1,
             3, 2, 2, 1, 2, 1, 1, 0];
          low_mask = mm_set1_epi8 0x0f;
          lo = v AND low_mask;
          hi = mm_srli_epi16 v 4 AND low_mask;
          popcnt1 = mm_shuffle_epi8 lookup1 lo;
          popcnt2 = mm_shuffle_epi8 lookup2 hi
      in mm_sad_epu8 popcnt1 popcnt2)"

definition popcnt512 :: "m512i \<Rightarrow> m512i" where
  "popcnt512 v =
     (let m1 = mm_set1_epi8 0x55;
          m2 = mm_set1_epi8 0x33;
          m4 = mm_set1_epi8 0x0F;
          t1 = mm_sub_epi8 v (mm_srli_epi16 v 1 AND m1);
          t2 = mm_add_epi8 (t1 AND m2) (mm_srli_epi16 t1 2 AND m2);
          t3 = mm_add_epi8 t2 (mm_srli_epi16 t2 4) AND m4
      in mm_sad_epu8 t3 0)"

text \<open>
  \<open>popcnt_avx2_csa_intersect\<close> and \<open>popcnt_avx512_csa_intersect\<close> differ only in the
  register type, the adder and the register popcount, which are the parameters \<open>n\<close> (the
  64-bit words of a register), \<open>CSA\<close> and \<open>popcnt\<close> here.  The main loop is
  \<^verbatim>\<open>for (; i < limit; i += 16) { ...; cnt = add_epi64(cnt, popcnt(sixteens)); }\<close>
  and the last loop
  \<^verbatim>\<open>for (; i < size; ++i) cnt = add_epi64(cnt, popcnt(data1[i] & data2[i]));\<close>
\<close>

partial_function (option) wide_csa_loop ::
  "nat \<Rightarrow> ('a::len word \<Rightarrow> 'a word \<Rightarrow> 'a word \<Rightarrow> 'a word \<times> 'a word) \<Rightarrow> ('a word \<Rightarrow> 'a word)
     \<Rightarrow> u64 ptr \<Rightarrow> u64 ptr \<Rightarrow> u64 \<Rightarrow> u64 \<Rightarrow> 'a word \<times> 'a word \<times> 'a word \<times> 'a word \<Rightarrow> 'a word
     \<Rightarrow> (u64 \<times> ('a word \<times> 'a word \<times> 'a word \<times> 'a word) \<times> 'a word) option" where
  "wide_csa_loop n CSA popcnt data1 data2 limit i s cnt =
     (if i < limit then do {
        d \<leftarrow> and_blocks n data1 data2 i;
        (case csa_round CSA d s of (ones, twos, fours, eights, sixteens) \<Rightarrow>
           wide_csa_loop n CSA popcnt data1 data2 limit (i + 16) (ones, twos, fours, eights)
             (mm_add_epi64 cnt (popcnt sixteens)))
      } else Some (i, s, cnt))"

declare wide_csa_loop.simps [code]

function wide_tail ::
  "nat \<Rightarrow> ('a::len word \<Rightarrow> 'a word) \<Rightarrow> u64 ptr \<Rightarrow> u64 ptr \<Rightarrow> u64 \<Rightarrow> u64 \<Rightarrow> 'a word
     \<Rightarrow> 'a word option" where
  "wide_tail n popcnt data1 data2 sz i cnt =
     (if i < sz then do {
        a \<leftarrow> load_si n data1 i;
        b \<leftarrow> load_si n data2 i;
        wide_tail n popcnt data1 data2 sz (i + 1) (mm_add_epi64 cnt (popcnt (a AND b)))
      } else Some cnt)"
  by pat_completeness auto
termination
proof (relation "measure (\<lambda>(n, popcnt, data1, data2, sz, i, cnt). unat sz - unat i)")
  fix sz i :: u64
  assume "i < sz"
  then have "unat sz - unat (i + 1) < unat sz - unat i"
    by unat_arith
  then show "((n, popcnt, data1, data2, sz, i + 1, mm_add_epi64 cnt (popcnt (a AND b))),
              (n, popcnt, data1, data2, sz, i, cnt))
      \<in> measure (\<lambda>(n, popcnt, data1, data2, sz, i, cnt). unat sz - unat i)"
    for n :: nat and popcnt :: "'a word \<Rightarrow> 'a word" and data1 data2 :: "u64 ptr" and a b cnt :: "'a word"
    by simp
qed simp

declare wide_tail.simps [simp del]

definition popcnt_wide_csa_intersect ::
  "nat \<Rightarrow> ('a::len word \<Rightarrow> 'a word \<Rightarrow> 'a word \<Rightarrow> 'a word \<times> 'a word) \<Rightarrow> ('a word \<Rightarrow> 'a word)
     \<Rightarrow> u64 ptr \<Rightarrow> u64 ptr \<Rightarrow> u64 \<Rightarrow> u64 option" where
  "popcnt_wide_csa_intersect n CSA popcnt data1 data2 sz = do {
     let limit = sz - sz mod 16;
     (i, (ones, twos, fours, eights), cnt) \<leftarrow>
        wide_csa_loop n CSA popcnt data1 data2 limit 0 (0, 0, 0, 0) 0;
     let cnt = mm_slli_epi64 cnt 4;
     let cnt = mm_add_epi64 cnt (mm_slli_epi64 (popcnt eights) 3);
     let cnt = mm_add_epi64 cnt (mm_slli_epi64 (popcnt fours) 2);
     let cnt = mm_add_epi64 cnt (mm_slli_epi64 (popcnt twos) 1);
     let cnt = mm_add_epi64 cnt (popcnt ones);
     cnt \<leftarrow> wide_tail n popcnt data1 data2 sz i cnt;
     Some (sum_list (lanes cnt :: u64 list))
   }"

definition popcnt_avx2_csa_intersect :: "u64 ptr \<Rightarrow> u64 ptr \<Rightarrow> u64 \<Rightarrow> u64 option" where
  "popcnt_avx2_csa_intersect = popcnt_wide_csa_intersect 4 CSA256 popcnt256"

definition popcnt_avx512_csa_intersect :: "u64 ptr \<Rightarrow> u64 ptr \<Rightarrow> u64 \<Rightarrow> u64 option" where
  "popcnt_avx512_csa_intersect = popcnt_wide_csa_intersect 8 CSA512 popcnt512"

definition intersect_bitmaps_avx2 :: "u64 ptr \<Rightarrow> u64 ptr \<Rightarrow> u32 \<Rightarrow> u64 option" where
  "intersect_bitmaps_avx2 b1 b2 n_ints = do {
     let n_cycles = n_ints div 4;
     c \<leftarrow> popcnt_avx2_csa_intersect b1 b2 (ucast n_cycles);
     and_popcount_tail b1 b2 n_ints (int_of_u32 (n_cycles * 4)) (0 + c)
   }"

definition intersect_bitmaps_avx512_csa :: "u64 ptr \<Rightarrow> u64 ptr \<Rightarrow> u32 \<Rightarrow> u64 option" where
  "intersect_bitmaps_avx512_csa b1 b2 n_ints = do {
     let n_cycles = n_ints div 8;
     c \<leftarrow> popcnt_avx512_csa_intersect b1 b2 (ucast n_cycles);
     and_popcount_tail b1 b2 n_ints (int_of_u32 (n_cycles * 8)) (0 + c)
   }"

section \<open>All-pairs drivers\<close>

text \<open>
  A dense kernel is called as \<open>( *f)(&vals[left], &vals[right], n_ints)\<close>, the sparse one
  with two more pointers and two counts.  The drivers only add up what the kernels
  return, so the model leaves the type of a kernel's result open (it is \<open>uint64_t\<close> in the
  code, where the addition wraps).
\<close>

type_synonym 'a ftype = "u64 ptr \<Rightarrow> u64 ptr \<Rightarrow> u32 \<Rightarrow> 'a option"
type_synonym 'a fltype = "u64 ptr \<Rightarrow> u64 ptr \<Rightarrow> u32 ptr \<Rightarrow> u32 ptr \<Rightarrow> u32 \<Rightarrow> u32 \<Rightarrow> 'a option"

definition ptr_add :: "'w ptr \<Rightarrow> nat \<Rightarrow> 'w ptr" where
  "ptr_add p n = (fst p, snd p + n)"

text \<open>
  \<^verbatim>\<open>for (uint32_t k = k0; k < bound; ++k) body\<close>: the body gets the counter and the
  variables it updates, and returns them updated.
\<close>

function for_u32 :: "u32 \<Rightarrow> u32 \<Rightarrow> (u32 \<Rightarrow> 's \<Rightarrow> 's option) \<Rightarrow> 's \<Rightarrow> 's option" where
  "for_u32 k bound body s =
     (if k < bound then do { s' \<leftarrow> body k s; for_u32 (k + 1) bound body s' } else Some s)"
  by pat_completeness auto
termination
proof (relation "measure (\<lambda>(k, bound, body, s). unat bound - unat k)")
  fix k bound :: u32
  assume "k < bound"
  then have "unat bound - unat (k + 1) < unat bound - unat k"
    by unat_arith
  then show "((k + 1, bound, body, s'), (k, bound, body, s))
      \<in> measure (\<lambda>(k, bound, body, s). unat bound - unat k)"
    for body :: "u32 \<Rightarrow> 's \<Rightarrow> 's option" and s s' :: 's
    by simp
qed simp

declare for_u32.simps [simp del]

text \<open>
  \<^verbatim>\<open>for (; k + step <= bound; k += step) body\<close>, the loop over strips of \<open>block_size\<close>
  vectors.  The sum \<open>k + step\<close> wraps, so the loop need not end; it returns the counter with
  the variables.
\<close>

partial_function (option) strips_u32 ::
  "u32 \<Rightarrow> u32 \<Rightarrow> u32 \<Rightarrow> (u32 \<Rightarrow> 's \<Rightarrow> 's option) \<Rightarrow> 's \<Rightarrow> (u32 \<times> 's) option" where
  "strips_u32 k step bound body s =
     (if k + step \<le> bound then do { s' \<leftarrow> body k s; strips_u32 (k + step) step bound body s' }
      else Some (k, s))"

declare strips_u32.simps [code]

text \<open>
  \<open>c_fwrapper_blocked\<close> and \<open>c_flwrapper_blocked\<close> are the same loops around two
  different pair steps.  \<open>step left right a b\<close> is what a driver adds to \<open>total\<close> for the
  pair of vectors with indices \<open>a\<close> and \<open>b\<close>, whose words start at the offsets \<open>left\<close>
  and \<open>right\<close> of \<open>vals\<close>.  The four parts carry the names of the comments in the source.
\<close>

type_synonym 'a pair_fn = "u32 \<Rightarrow> u32 \<Rightarrow> u32 \<Rightarrow> u32 \<Rightarrow> 'a option"

definition diagonal_component ::
  "u32 \<Rightarrow> 'a pair_fn \<Rightarrow> u32 \<Rightarrow> u32 \<Rightarrow> 'a \<Rightarrow> 'a::comm_monoid_add option" where
  "diagonal_component n_ints step block_size i total0 = do {
     (left, total) \<leftarrow> for_u32 0 block_size (\<lambda>j (left, total). do {
        (right, total) \<leftarrow> for_u32 (j + 1) block_size (\<lambda>jj (right, total). do {
           v \<leftarrow> step left right (i + j) (i + jj);
           Some (right + n_ints, total + v)
         }) (left + n_ints, total);
        Some (left + n_ints, total)
      }) (i * n_ints, total0);
     Some total
   }"

definition square_component ::
  "u32 \<Rightarrow> 'a pair_fn \<Rightarrow> u32 \<Rightarrow> u32 \<Rightarrow> u32 \<Rightarrow> 'a \<Rightarrow> (u32 \<times> 'a::comm_monoid_add) option" where
  "square_component n_ints step block_size n_vectors curi total0 =
     strips_u32 (curi + block_size) block_size n_vectors (\<lambda>j total. do {
        (left, total) \<leftarrow> for_u32 0 block_size (\<lambda>ii (left, total). do {
           (right, total) \<leftarrow> for_u32 0 block_size (\<lambda>jj (right, total). do {
              v \<leftarrow> step left right (curi + ii) (j + jj);
              Some (right + n_ints, total + v)
            }) (j * n_ints, total);
           Some (left + n_ints, total)
         }) (curi * n_ints, total);
        Some total
      }) total0"

definition residual_component ::
  "u32 \<Rightarrow> 'a pair_fn \<Rightarrow> u32 \<Rightarrow> u32 \<Rightarrow> u32 \<Rightarrow> u32 \<Rightarrow> 'a \<Rightarrow> 'a::comm_monoid_add option" where
  "residual_component n_ints step block_size n_vectors curi j total0 = do {
     (right, total) \<leftarrow> for_u32 j n_vectors (\<lambda>j (right, total). do {
        (left, total) \<leftarrow> for_u32 0 block_size (\<lambda>jj (left, total). do {
           v \<leftarrow> step left right (curi + jj) j;
           Some (left + n_ints, total + v)
         }) (curi * n_ints, total);
        Some (right + n_ints, total)
      }) (j * n_ints, total0);
     Some total
   }"

definition residual_tail ::
  "u32 \<Rightarrow> 'a pair_fn \<Rightarrow> u32 \<Rightarrow> u32 \<Rightarrow> 'a \<Rightarrow> 'a::comm_monoid_add option" where
  "residual_tail n_ints step n_vectors i total0 = do {
     (left, total) \<leftarrow> for_u32 i n_vectors (\<lambda>i (left, total). do {
        (right, total) \<leftarrow> for_u32 (i + 1) n_vectors (\<lambda>j (right, total). do {
           v \<leftarrow> step left right i j;
           Some (right + n_ints, total + v)
         }) (left + n_ints, total);
        Some (left + n_ints, total)
      }) (i * n_ints, total0);
     Some total
   }"

definition blocked_pairs :: "u32 \<Rightarrow> u32 \<Rightarrow> 'a pair_fn \<Rightarrow> u32 \<Rightarrow> 'a::comm_monoid_add option" where
  "blocked_pairs n_vectors n_ints step block_size0 =
     (let block_size = (if block_size0 = 0 then 3 else block_size0) in do {
        (i, total) \<leftarrow> strips_u32 0 block_size n_vectors (\<lambda>i total. do {
           total \<leftarrow> diagonal_component n_ints step block_size i total;
           (j, total) \<leftarrow> square_component n_ints step block_size n_vectors i total;
           residual_component n_ints step block_size n_vectors i j total
         }) 0;
        residual_tail n_ints step n_vectors i total
      })"

text \<open>The pair step of \<open>c_fwrapper_blocked\<close>: \<open>( *f)(&vals[left], &vals[right], n_ints)\<close>.\<close>

definition c_fwrapper_blocked ::
  "u32 \<Rightarrow> u64 ptr \<Rightarrow> u32 \<Rightarrow> 'a ftype \<Rightarrow> u32 \<Rightarrow> 'a::comm_monoid_add option" where
  "c_fwrapper_blocked n_vectors vals n_ints f block_size =
     blocked_pairs n_vectors n_ints
       (\<lambda>left right a b. f (ptr_add vals (unat left)) (ptr_add vals (unat right)) n_ints)
       block_size"

text \<open>
  The pair step of \<open>c_flwrapper_blocked\<close>, on the vectors with indices \<open>a\<close> and \<open>b\<close>:
  \<^verbatim>\<open>if (n_alts[a] < cutoff || n_alts[b] < cutoff)
      total += ( *fl)(&vals[left], &vals[right], &alt_positions[alt_offsets[a]],
                     &alt_positions[alt_offsets[b]], n_alts[a], n_alts[b]);
   else total += ( *f)(&vals[left], &vals[right], n_ints);\<close>
\<close>

definition pair_step ::
  "u64 ptr \<Rightarrow> u32 \<Rightarrow> u32 ptr \<Rightarrow> u32 ptr \<Rightarrow> u32 ptr \<Rightarrow> 'a ftype \<Rightarrow> 'a fltype \<Rightarrow> u32 \<Rightarrow> 'a pair_fn" where
  "pair_step vals n_ints n_alts alt_positions alt_offsets f fl cutoff left right a b = do {
     na \<leftarrow> rd n_alts (uint a);
     sparse \<leftarrow> (if na < cutoff then Some True
                else do { nb \<leftarrow> rd n_alts (uint b); Some (nb < cutoff) });
     if sparse then do {
       oa \<leftarrow> rd alt_offsets (uint a);
       ob \<leftarrow> rd alt_offsets (uint b);
       na \<leftarrow> rd n_alts (uint a);
       nb \<leftarrow> rd n_alts (uint b);
       fl (ptr_add vals (unat left)) (ptr_add vals (unat right))
          (ptr_add alt_positions (unat oa)) (ptr_add alt_positions (unat ob)) na nb
     } else f (ptr_add vals (unat left)) (ptr_add vals (unat right)) n_ints
   }"

definition c_flwrapper_blocked ::
  "u32 \<Rightarrow> u64 ptr \<Rightarrow> u32 \<Rightarrow> u32 ptr \<Rightarrow> u32 ptr \<Rightarrow> u32 ptr \<Rightarrow> 'a ftype \<Rightarrow> 'a fltype \<Rightarrow> u32 \<Rightarrow> u32
     \<Rightarrow> 'a::comm_monoid_add option" where
  "c_flwrapper_blocked n_vectors vals n_ints n_alts alt_positions alt_offsets f fl cutoff block_size =
     blocked_pairs n_vectors n_ints
       (pair_step vals n_ints n_alts alt_positions alt_offsets f fl cutoff) block_size"

section \<open>Dispatch\<close>

text \<open>
  What the preprocessor decides: which of \<open>HAVE_SSE41\<close>, \<open>HAVE_AVX2\<close> and \<open>HAVE_AVX512\<close>
  are defined (each needs \<open>HAVE_CPUID\<close>).
\<close>

record build =
  HAVE_SSE41 :: bool
  HAVE_AVX2 :: bool
  HAVE_AVX512 :: bool

text \<open>
  What the processor answers: \<open>ecx\<close> of CPUID leaf 1, \<open>ebx\<close> of CPUID leaf 7 and the low
  half of XCR0.
\<close>

record host =
  cpuid1_ecx :: u32
  cpuid7_ebx :: u32
  xcr0 :: u32

definition bit_POPCNT :: u32 where "bit_POPCNT = push_bit 23 1"
definition bit_SSE41 :: u32 where "bit_SSE41 = push_bit 19 1"
definition bit_SSE42 :: u32 where "bit_SSE42 = push_bit 20 1"
definition bit_AVX2 :: u32 where "bit_AVX2 = push_bit 5 1"
definition bit_AVX512BW :: u32 where "bit_AVX512BW = push_bit 30 1"
definition XSTATE_SSE :: u32 where "XSTATE_SSE = push_bit 1 1"
definition XSTATE_YMM :: u32 where "XSTATE_YMM = push_bit 2 1"
definition XSTATE_ZMM :: u32 where "XSTATE_ZMM = push_bit 5 7"

definition get_cpuid :: "build \<Rightarrow> host \<Rightarrow> u32" where
  "get_cpuid bld h =
     (let flags = 0;
          abcd2 = cpuid1_ecx h;
          flags = (if abcd2 AND bit_POPCNT = bit_POPCNT then flags OR bit_POPCNT else flags);
          flags = (if abcd2 AND bit_SSE41 = bit_SSE41 then flags OR bit_SSE41 else flags);
          flags = (if abcd2 AND bit_SSE42 = bit_SSE42 then flags OR bit_SSE42 else flags)
      in if HAVE_AVX2 bld \<or> HAVE_AVX512 bld then
           (let osxsave_mask = push_bit 27 1 in
            if abcd2 AND osxsave_mask \<noteq> osxsave_mask then 0
            else
              (let ymm_mask = XSTATE_SSE OR XSTATE_YMM;
                   zmm_mask = XSTATE_SSE OR XSTATE_YMM OR XSTATE_ZMM
               in if xcr0 h AND ymm_mask = ymm_mask then
                    (let abcd1 = cpuid7_ebx h;
                         flags = (if abcd1 AND bit_AVX2 = bit_AVX2 then flags OR bit_AVX2 else flags)
                     in if xcr0 h AND zmm_mask = zmm_mask then
                          (if abcd1 AND bit_AVX512BW = bit_AVX512BW then flags OR bit_AVX512BW
                           else flags)
                        else flags)
                  else flags))
         else flags)"

text \<open>
  Each entry point keeps a \<open>static int\<close> that starts at \<open>-1\<close>, and calls \<open>get_cpuid\<close>
  while it holds \<open>-1\<close>; \<open>cpuid_static\<close> is the value the static holds at the call.
\<close>

definition cached_cpuid :: "build \<Rightarrow> host \<Rightarrow> u32 \<Rightarrow> u32" where
  "cached_cpuid bld h cpuid_static = (if cpuid_static = - 1 then get_cpuid bld h else cpuid_static)"

text \<open>
  The block size argument is \<open>FIC_DEFAULT_BLOCK/(n_bitmaps_vector*8)\<close> with
  \<open>FIC_DEFAULT_BLOCK\<close> the \<open>double\<close> 256e3 and the product taken in \<open>uint32_t\<close>; the
  quotient is converted to \<open>uint32_t\<close> at the call.  For a divisor other than 0 the
  quotient is below \<open>2 ^ 18\<close> and, unless it is an integer, at least \<open>2 ^ - 32\<close> away from
  the next one, so that rounding to \<open>double\<close> does not change its integer part.  For the
  divisor 0 the quotient is infinite and C leaves the converted value open: it is the
  parameter \<open>inf_block\<close>.
\<close>

definition default_block_size :: "u32 \<Rightarrow> u32 \<Rightarrow> u32" where
  "default_block_size inf_block n_bitmaps_vector =
     (let d = n_bitmaps_vector * 8 in
      if d = 0 then inf_block else of_nat (256000 div unat d))"

definition intersect :: "build \<Rightarrow> host \<Rightarrow> u32 \<Rightarrow> u32 \<Rightarrow> u64 ptr \<Rightarrow> u32 \<Rightarrow> u32 \<Rightarrow> u64 option" where
  "intersect bld h cpuid_static inf_block data n_vectors n_bitmaps_vector =
     (let cpuid = cached_cpuid bld h cpuid_static;
          block_size = default_block_size inf_block n_bitmaps_vector
      in if HAVE_AVX512 bld \<and> cpuid AND bit_AVX512BW \<noteq> 0 \<and> n_bitmaps_vector \<ge> 128 then
           c_fwrapper_blocked n_vectors data n_bitmaps_vector intersect_bitmaps_avx512_csa block_size
         else if HAVE_AVX2 bld \<and> cpuid AND bit_AVX2 \<noteq> 0 \<and> n_bitmaps_vector \<ge> 64 then
           c_fwrapper_blocked n_vectors data n_bitmaps_vector intersect_bitmaps_avx2 block_size
         else if HAVE_SSE41 bld \<and> cpuid AND bit_SSE41 \<noteq> 0 \<and> n_bitmaps_vector \<ge> 32 then
           c_fwrapper_blocked n_vectors data n_bitmaps_vector intersect_bitmaps_sse4 block_size
         else
           c_fwrapper_blocked n_vectors data n_bitmaps_vector intersect_bitmaps_scalar block_size)"

definition FIC_SSE_ALIGNMENT :: u32 where "FIC_SSE_ALIGNMENT = 16"
definition FIC_AVX2_ALIGNMENT :: u32 where "FIC_AVX2_ALIGNMENT = 32"
definition FIC_AVX512_ALIGNMENT :: u32 where "FIC_AVX512_ALIGNMENT = 64"

definition get_alignment :: "build \<Rightarrow> host \<Rightarrow> u32 \<Rightarrow> u32" where
  "get_alignment bld h cpuid_static =
     (let cpuid = cached_cpuid bld h cpuid_static;
          alignment = 0;
          alignment = (if HAVE_AVX512 bld \<and> cpuid AND bit_AVX512BW \<noteq> 0
                       then FIC_AVX512_ALIGNMENT else alignment);
          alignment = (if HAVE_AVX2 bld \<and> cpuid AND bit_AVX2 \<noteq> 0 \<and> alignment = 0
                       then FIC_AVX2_ALIGNMENT else alignment);
          alignment = (if HAVE_SSE41 bld \<and> cpuid AND bit_SSE41 \<noteq> 0 \<and> alignment = 0
                       then FIC_SSE_ALIGNMENT else alignment)
      in if alignment = 0 then 8 else alignment)"

definition intersect_list ::
  "build \<Rightarrow> host \<Rightarrow> u32 \<Rightarrow> u32 \<Rightarrow> u64 ptr \<Rightarrow> u32 \<Rightarrow> u32 \<Rightarrow> u32 ptr \<Rightarrow> u32 ptr \<Rightarrow> u32 ptr \<Rightarrow> u32
     \<Rightarrow> u64 option" where
  "intersect_list bld h cpuid_static inf_block data n_vectors n_bitmaps_vector n_alts alt_pos alt_offsets cutoff =
     (let cpuid = cached_cpuid bld h cpuid_static;
          block_size = default_block_size inf_block n_bitmaps_vector
      in if HAVE_AVX512 bld \<and> cpuid AND bit_AVX512BW \<noteq> 0 \<and> n_bitmaps_vector \<ge> 128 then
           c_flwrapper_blocked n_vectors data n_bitmaps_vector n_alts alt_pos alt_offsets
             intersect_bitmaps_avx512_csa intersect_bitmaps_scalar_list 50 block_size
         else if HAVE_AVX2 bld \<and> cpuid AND bit_AVX2 \<noteq> 0 \<and> n_bitmaps_vector \<ge> 64 then
           c_flwrapper_blocked n_vectors data n_bitmaps_vector n_alts alt_pos alt_offsets
             intersect_bitmaps_avx2 intersect_bitmaps_scalar_list 50 block_size
         else if HAVE_SSE41 bld \<and> cpuid AND bit_SSE41 \<noteq> 0 \<and> n_bitmaps_vector \<ge> 32 then
           c_flwrapper_blocked n_vectors data n_bitmaps_vector n_alts alt_pos alt_offsets
             intersect_bitmaps_sse4 intersect_bitmaps_scalar_list 50 block_size
         else
           c_flwrapper_blocked n_vectors data n_bitmaps_vector n_alts alt_pos alt_offsets
             intersect_bitmaps_scalar intersect_bitmaps_scalar_list 50 block_size)"

section \<open>Instrumented kernels\<close>

text \<open>
  Kernels that return, instead of a count, the record of the call: which kernel it was and
  at which word offsets its two operands start.  A driver run on them returns the multiset
  of the calls it makes.
\<close>

datatype call = Dense nat nat | Sparse nat nat

definition record_dense :: "call multiset ftype" where
  "record_dense a b n = Some {#Dense (snd a) (snd b)#}"

definition record_sparse :: "call multiset fltype" where
  "record_sparse a b la lb na nb = Some {#Sparse (snd a) (snd b)#}"

section \<open>What the kernels are to compute\<close>

text \<open>
  \<open>word_at p k\<close> is the word \<open>p[k]\<close> of an array that has it, \<open>in_bounds p n\<close> says that
  \<open>p[0]\<close>, ..., \<open>p[n - 1]\<close> are inside the array, and \<open>and_popcount_sum b1 b2 n\<close> is the sum
  of \<open>popcount (b1[k] & b2[k])\<close> over \<open>k < n\<close>.
\<close>

definition word_at :: "'w ptr \<Rightarrow> nat \<Rightarrow> 'w" where
  "word_at p k = fst p ! (snd p + k)"

definition in_bounds :: "'w ptr \<Rightarrow> nat \<Rightarrow> bool" where
  "in_bounds p n \<longleftrightarrow> snd p + n \<le> length (fst p)"

definition and_popcount_sum :: "u64 ptr \<Rightarrow> u64 ptr \<Rightarrow> nat \<Rightarrow> nat" where
  "and_popcount_sum b1 b2 n = (\<Sum>k<n. popcount (word_at b1 k AND word_at b2 k))"

text \<open>
  The sparse kernel gets, with each bitmap, the list of the positions of its set bits.
  \<open>bit_at b p\<close> is the bit \<open>(b[p >> 6] >> (p & 63)) & 1\<close> of a bitmap, \<open>set_positions b W\<close>
  the ascending list of the positions below \<open>64 * W\<close> at which it is set, and \<open>list_at l n\<close>
  the first \<open>n\<close> entries of a position list.
\<close>

definition bit_at :: "u64 ptr \<Rightarrow> nat \<Rightarrow> bool" where
  "bit_at b p \<longleftrightarrow> bit (word_at b (p div 64)) (p mod 64)"

definition set_positions :: "u64 ptr \<Rightarrow> nat \<Rightarrow> nat list" where
  "set_positions b W = filter (bit_at b) [0..<64 * W]"

definition list_at :: "u32 ptr \<Rightarrow> nat \<Rightarrow> nat list" where
  "list_at l n = map (\<lambda>k. unat (word_at l k)) [0..<n]"

text \<open>
  The word offset the drivers compute for the vector with index \<open>i\<close>: the product
  \<open>i * n_ints\<close> in \<open>uint32_t\<close>.
\<close>

definition vec_offset :: "u32 \<Rightarrow> nat \<Rightarrow> u32" where
  "vec_offset n_ints i = of_nat i * n_ints"

section \<open>Properties of the carry-save adders\<close>

lemma ternarylogic_0x96: "ternarylogic c b a 0x96 = a XOR b XOR c"
  unfolding ternarylogic_def minterm_def sel_def
  by (simp, rule bit_eqI) (auto simp add: bit_simps)

lemma ternarylogic_0xe8: "ternarylogic c b a 0xe8 = (a AND b) OR ((a XOR b) AND c)"
  unfolding ternarylogic_def minterm_def sel_def
  by (simp, rule bit_eqI) (auto simp add: bit_simps)

text \<open>
  C6.  At each of the three lane widths the carry-save adder returns
  \<open>l = a XOR b XOR c\<close> and \<open>h = (a AND b) OR ((a XOR b) AND c)\<close>; at 512 bits these are
  the two ternary-logic operations with truth tables \<open>0x96\<close> and \<open>0xE8\<close> on \<open>(c, b, a)\<close>.
\<close>

theorem CSA_sum_and_carry:
  "CSA128 a1 b1 c1 = ((a1 AND b1) OR ((a1 XOR b1) AND c1), a1 XOR b1 XOR c1) \<and>
   CSA256 a2 b2 c2 = ((a2 AND b2) OR ((a2 XOR b2) AND c2), a2 XOR b2 XOR c2) \<and>
   CSA512 a3 b3 c3 = (ternarylogic c3 b3 a3 0xe8, ternarylogic c3 b3 a3 0x96) \<and>
   ternarylogic c3 b3 a3 0x96 = a3 XOR b3 XOR c3 \<and>
   ternarylogic c3 b3 a3 0xe8 = (a3 AND b3) OR ((a3 XOR b3) AND c3)"
  by (simp add: CSA128_def CSA256_def CSA512_def Let_def ternarylogic_0x96 ternarylogic_0xe8 xor.assoc)

section \<open>The alignment helper\<close>

text \<open>
  C9.  \<open>get_alignment\<close> returns 8, 16, 32 or 64, each a power of two, whatever the build,
  the processor's answers and the cached flags are.
\<close>

theorem get_alignment_values:
  "get_alignment bld h cpuid_static \<in> {8, 16, 32, 64} \<and>
   (\<exists>k. get_alignment bld h cpuid_static = 2 ^ k)"
proof -
  have "get_alignment bld h cpuid_static \<in> {8, 16, 32, 64}"
    by (simp add: get_alignment_def Let_def FIC_SSE_ALIGNMENT_def FIC_AVX2_ALIGNMENT_def
        FIC_AVX512_ALIGNMENT_def)
  moreover have "\<exists>k. x = 2 ^ k" if "x \<in> {8, 16, 32, 64}" for x :: u32
  proof -
    have "(8 :: u32) = 2 ^ 3" "(16 :: u32) = 2 ^ 4" "(32 :: u32) = 2 ^ 5" "(64 :: u32) = 2 ^ 6"
      by simp_all
    with that show ?thesis
      by blast
  qed
  ultimately show ?thesis
    by blast
qed

section \<open>The sparse-aware entry point and its cutoff\<close>

text \<open>
  C10.  \<open>intersect_list\<close> returns the same for any two values of its cutoff argument: on
  each of its four paths it hands the constant 50 to the blocked driver.
\<close>

theorem intersect_list_ignores_cutoff:
  "intersect_list bld h cpuid_static inf_block data n_vectors n_bitmaps_vector
       n_alts alt_pos alt_offsets c1 =
   intersect_list bld h cpuid_static inf_block data n_vectors n_bitmaps_vector
       n_alts alt_pos alt_offsets c2"
  by (simp add: intersect_list_def)

text \<open>
  C3.  Two vectors of one word, each with the single bit 0 set, a side table that gives
  each vector one position, the position 1, and the cutoff 0 from the caller.  No popcount
  is below 0, so by the caller's cutoff the pair is dense, and the dense kernel returns 1
  for it.  \<open>intersect_list\<close> returns 0, the result of the sparse kernel, which probes bit 1:
  it runs the driver with the cutoff 50 in place of 0.  The driver follows the cutoff it
  is given: with the caller's 0 it calls the dense kernel and returns 1.
\<close>

theorem intersect_list_cutoff_0_goes_sparse:
  "intersect_list bld h cpuid_static inf_block ([1, 1], 0) 2 1 ([1, 1], 0) ([1, 1], 0) ([0, 1], 0) 0 =
     Some 0 \<and>
   intersect_bitmaps_scalar ([1, 1], 0) ([1, 1], 1) 1 = Some 1 \<and>
   intersect_bitmaps_scalar_list ([1, 1], 0) ([1, 1], 1) ([1, 1], 0) ([1, 1], 1) 1 1 = Some 0 \<and>
   c_flwrapper_blocked 2 ([1, 1], 0) 1 ([1, 1], 0) ([1, 1], 0) ([0, 1], 0)
       intersect_bitmaps_scalar intersect_bitmaps_scalar_list 0 32000 = Some 1 \<and>
   c_flwrapper_blocked 2 ([1, 1], 0) 1 ([1, 1], 0) ([1, 1], 0) ([0, 1], 0)
       record_dense record_sparse 0 32000 = Some {#Dense 0 1#} \<and>
   c_flwrapper_blocked 2 ([1, 1], 0) 1 ([1, 1], 0) ([1, 1], 0) ([0, 1], 0)
       record_dense record_sparse 50 32000 = Some {#Sparse 0 1#}"
proof -
  have dense: "intersect_bitmaps_scalar ([1, 1], 0) ([1, 1], 1) 1 = Some 1"
    by code_simp
  have sparse: "intersect_bitmaps_scalar_list ([1, 1], 0) ([1, 1], 1) ([1, 1], 0) ([1, 1], 1) 1 1 = Some 0"
    by code_simp
  have run: "c_flwrapper_blocked 2 ([1, 1], 0) 1 ([1, 1], 0) ([1, 1], 0) ([0, 1], 0) f fl c 32000 =
      (if 1 < (c :: u32) then fl ([1, 1], 0) ([1, 1], 1) ([1, 1], 0) ([1, 1], 1) 1 1
       else f ([1, 1], 0) ([1, 1], 1) 1)"
    for f :: "'a::comm_monoid_add ftype" and fl :: "'a fltype" and c
    by (cases "f ([1, 1], 0) ([1, 1], 1) 1"; cases "fl ([1, 1], 0) ([1, 1], 1) ([1, 1], 0) ([1, 1], 1) 1 1")
      (simp_all add: c_flwrapper_blocked_def blocked_pairs_def diagonal_component_def
        square_component_def residual_component_def residual_tail_def strips_u32.simps
        for_u32.simps pair_step_def rd_def ptr_add_def)
  have c50: "(1 :: u32) < 50" and c0: "\<not> (1 :: u32) < 0"
    by simp_all
  have "default_block_size inf_block 1 = 32000"
    by (simp add: default_block_size_def)
  then have "intersect_list bld h cpuid_static inf_block ([1, 1], 0) 2 1 ([1, 1], 0) ([1, 1], 0) ([0, 1], 0) 0 =
     c_flwrapper_blocked 2 ([1, 1], 0) 1 ([1, 1], 0) ([1, 1], 0) ([0, 1], 0)
       intersect_bitmaps_scalar intersect_bitmaps_scalar_list 50 32000"
    by (simp add: intersect_list_def Let_def word_le_nat_alt)
  then have "intersect_list bld h cpuid_static inf_block ([1, 1], 0) 2 1 ([1, 1], 0) ([1, 1], 0) ([0, 1], 0) 0 =
      Some 0"
    by (simp only: run c50 if_True sparse)
  moreover have "c_flwrapper_blocked 2 ([1, 1], 0) 1 ([1, 1], 0) ([1, 1], 0) ([0, 1], 0)
       intersect_bitmaps_scalar intersect_bitmaps_scalar_list 0 32000 = Some 1"
    by (simp only: run c0 if_False dense)
  moreover have "c_flwrapper_blocked 2 ([1, 1], 0) 1 ([1, 1], 0) ([1, 1], 0) ([0, 1], 0)
       record_dense record_sparse 0 32000 = Some {#Dense 0 1#}"
    by (simp only: run c0 if_False record_dense_def snd_conv)
  moreover have "c_flwrapper_blocked 2 ([1, 1], 0) 1 ([1, 1], 0) ([1, 1], 0) ([0, 1], 0)
       record_dense record_sparse 50 32000 = Some {#Sparse 0 1#}"
    by (simp only: run c50 if_True record_sparse_def snd_conv)
  ultimately show ?thesis
    using dense sparse by blast
qed

section \<open>The kernels at small inputs\<close>

text \<open>
  C1.  Four words, that is two 128-bit blocks, with one common bit in the first word: the
  scalar kernel counts it; the SSE4.1 kernel, whose last loop assigns the popcount of each
  block to the count where it should add it, returns the popcount of the last block, 0.
\<close>

theorem sse4_differs_from_scalar:
  "intersect_bitmaps_sse4 ([1, 0, 0, 0], 0) ([1, 0, 0, 0], 0) 4 = Some 0 \<and>
   intersect_bitmaps_scalar ([1, 0, 0, 0], 0) ([1, 0, 0, 0], 0) 4 = Some 1"
  by code_simp

text \<open>
  C7.  The SSE4.1 kernel called with both pointers on the same vector of four words, which
  has eight bits set, returns 0.
\<close>

theorem sse4_aliased_not_popcount:
  "intersect_bitmaps_sse4 ([255, 0, 0, 0], 0) ([255, 0, 0, 0], 0) 4 = Some 0 \<and>
   sum_list (map popcount [255, 0, 0, 0 :: u64]) = 8"
  by code_simp

section \<open>The scalar kernel\<close>

lemma rd_in_bounds:
  "in_bounds p n \<Longrightarrow> 0 \<le> i \<Longrightarrow> nat i < n \<Longrightarrow> rd p i = Some (word_at p (nat i))"
  by (cases p) (auto simp add: rd_def in_bounds_def word_at_def nat_add_distrib)

lemma u32_of_int_less_iff:
  "k < 2 ^ 32 \<Longrightarrow> u32_of_int (int k) < n_ints \<longleftrightarrow> k < unat n_ints"
  by (simp add: u32_of_int_def word_less_nat_alt unat_of_nat)

lemma popcount_le: "popcount (w :: 'a::len word) \<le> LENGTH('a)"
  unfolding popcount_def by (rule order_trans [OF length_filter_le]) simp

lemma and_popcount_tail_sum:
  assumes "in_bounds b1 (unat n_ints)" and "in_bounds b2 (unat n_ints)"
    and "unat n_ints \<le> 2147483647" and "i \<le> unat n_ints"
  shows "and_popcount_tail b1 b2 n_ints (int i) cnt =
    Some (cnt + of_nat (\<Sum>k = i..<unat n_ints. popcount (word_at b1 k AND word_at b2 k)))"
  using assms(4)
proof (induction "unat n_ints - i" arbitrary: i cnt)
  case 0
  then have "i = unat n_ints"
    by simp
  then have "\<not> u32_of_int (int i) < n_ints"
    using assms(3) by (subst u32_of_int_less_iff) simp_all
  then show ?case
    using \<open>i = unat n_ints\<close> by (subst and_popcount_tail.simps) simp
next
  case (Suc m)
  define w where "w k = popcount (word_at b1 k AND word_at b2 k)" for k
  from Suc have less: "i < unat n_ints"
    by simp
  then have cond: "u32_of_int (int i) < n_ints"
    using assms(3) by (subst u32_of_int_less_iff) simp_all
  have step: "int_add (int i) 1 = Some (int (i + 1))"
    using less assms(3) by (simp add: int_add_def INT_MAX_def)
  have r: "rd b1 (int i) = Some (word_at b1 i)" "rd b2 (int i) = Some (word_at b2 i)"
    using less rd_in_bounds [OF assms(1), of "int i"] rd_in_bounds [OF assms(2), of "int i"]
    by simp_all
  have "and_popcount_tail b1 b2 n_ints (int i) cnt =
      and_popcount_tail b1 b2 n_ints (int (i + 1)) (cnt + of_nat (w i))"
    by (subst and_popcount_tail.simps) (simp only: cond r step if_True bind.bind_lunit
        FIC_POPCOUNT_def w_def)
  also have "\<dots> = Some (cnt + of_nat (w i) + of_nat (\<Sum>k = i + 1..<unat n_ints. w k))"
    using Suc.hyps(1) [of "i + 1" "cnt + of_nat (w i)"] Suc.hyps(2) less
    by (simp add: w_def)
  also have "cnt + of_nat (w i) + of_nat (\<Sum>k = i + 1..<unat n_ints. w k) =
      cnt + of_nat (\<Sum>k = i..<unat n_ints. w k)"
    by (simp add: sum.atLeast_Suc_lessThan [OF less] add.assoc)
  finally show ?case
    by (simp add: w_def)
qed

lemma and_popcount_unrolled_sum:
  assumes "in_bounds b1 (unat n_ints)" and "in_bounds b2 (unat n_ints)"
    and "unat n_ints \<le> 2147483644" and "i < unat n_ints \<or> i = 0"
  shows "\<exists>j. and_popcount_unrolled b1 b2 n_ints (int i) cnt =
      Some (int j, cnt + of_nat (\<Sum>k = i..<j. popcount (word_at b1 k AND word_at b2 k))) \<and>
    i \<le> j \<and> j \<le> unat n_ints"
  using assms(4)
proof (induction "unat n_ints - i" arbitrary: i cnt rule: less_induct)
  case less
  define w where "w k = popcount (word_at b1 k AND word_at b2 k)" for k
  have i4: "int_add (int i) 4 = Some (int (i + 4))"
    using less.prems assms(3) by (auto simp add: int_add_def INT_MAX_def)
  show ?case
  proof (cases "i + 4 < unat n_ints")
    case True
    then have cond: "u32_of_int (int (i + 4)) < n_ints"
      using assms(3) by (subst u32_of_int_less_iff) simp_all
    have r: "rd b1 (int i + 0) = Some (word_at b1 i)" "rd b2 (int i + 0) = Some (word_at b2 i)"
      "rd b1 (int i + 1) = Some (word_at b1 (i + 1))" "rd b2 (int i + 1) = Some (word_at b2 (i + 1))"
      "rd b1 (int i + 2) = Some (word_at b1 (i + 2))" "rd b2 (int i + 2) = Some (word_at b2 (i + 2))"
      "rd b1 (int i + 3) = Some (word_at b1 (i + 3))" "rd b2 (int i + 3) = Some (word_at b2 (i + 3))"
      using True by (simp_all add: rd_in_bounds [OF assms(1)] rd_in_bounds [OF assms(2)]
          nat_add_distrib)
    define c where "c = cnt + of_nat (w i) + of_nat (w (i + 1)) + of_nat (w (i + 2))
        + of_nat (w (i + 3))"
    have dec: "unat n_ints - (i + 4) < unat n_ints - i" and inv: "i + 4 < unat n_ints \<or> i + 4 = 0"
      using True by simp_all
    from less.hyps [OF dec inv, of c]
    obtain j where j: "and_popcount_unrolled b1 b2 n_ints (int (i + 4)) c =
        Some (int j, c + of_nat (\<Sum>k = i + 4..<j. w k))"
      and le: "i + 4 \<le> j" "j \<le> unat n_ints"
      by (auto simp add: w_def)
    have "and_popcount_unrolled b1 b2 n_ints (int i) cnt =
        and_popcount_unrolled b1 b2 n_ints (int (i + 4)) c"
      by (subst and_popcount_unrolled.simps) (simp only: i4 cond r option.case if_True
          bind.bind_lunit FIC_POPCOUNT_def w_def c_def)
    also note j
    also have "c + of_nat (\<Sum>k = i + 4..<j. w k) = cnt + of_nat (\<Sum>k = i..<j. w k)"
    proof -
      have "(\<Sum>k = i..<j. w k) = w i + (w (i + 1) + (w (i + 2) + (w (i + 3) + (\<Sum>k = i + 4..<j. w k))))"
        using le(1) by (simp add: sum.atLeast_Suc_lessThan eval_nat_numeral)
      then show ?thesis
        by (simp add: c_def add.assoc)
    qed
    finally show ?thesis
      using le by (auto simp add: w_def)
  next
    case False
    then have "\<not> u32_of_int (int (i + 4)) < n_ints"
      using assms(3) less.prems by (subst u32_of_int_less_iff) auto
    then have "and_popcount_unrolled b1 b2 n_ints (int i) cnt = Some (int i, cnt)"
      by (subst and_popcount_unrolled.simps) (simp add: i4)
    with less.prems show ?thesis
      by (intro exI [of _ i]) auto
  qed
qed

lemma intersect_bitmaps_scalar_sum:
  assumes "in_bounds b1 (unat n_ints)" and "in_bounds b2 (unat n_ints)"
    and "unat n_ints \<le> 2147483644"
  shows "intersect_bitmaps_scalar b1 b2 n_ints = Some (of_nat (and_popcount_sum b1 b2 (unat n_ints)))"
proof -
  define w where "w k = popcount (word_at b1 k AND word_at b2 k)" for k
  from and_popcount_unrolled_sum [OF assms, of 0 0]
  obtain j where j: "and_popcount_unrolled b1 b2 n_ints 0 0 = Some (int j, of_nat (\<Sum>k = 0..<j. w k))"
    and le: "j \<le> unat n_ints"
    by (auto simp add: w_def)
  have tail: "and_popcount_tail b1 b2 n_ints (int j) c = Some (c + of_nat (\<Sum>k = j..<unat n_ints. w k))"
    for c
    using assms(3) le by (simp add: and_popcount_tail_sum [OF assms(1, 2)] w_def)
  have "(\<Sum>k = 0..<j. w k) + (\<Sum>k = j..<unat n_ints. w k) = and_popcount_sum b1 b2 (unat n_ints)"
    using le by (simp add: and_popcount_sum_def sum.atLeastLessThan_concat lessThan_atLeast0 w_def)
  then have "(of_nat (\<Sum>k = 0..<j. w k) :: u64) + of_nat (\<Sum>k = j..<unat n_ints. w k) =
      of_nat (and_popcount_sum b1 b2 (unat n_ints))"
    by (simp only: flip: of_nat_add)
  then show ?thesis
    by (simp add: intersect_bitmaps_scalar_def j tail)
qed

lemma and_popcount_sum_le: "and_popcount_sum b1 b2 n \<le> 64 * n"
proof -
  have "and_popcount_sum b1 b2 n \<le> (\<Sum>k<n. 64)"
    unfolding and_popcount_sum_def
    by (rule sum_mono) (use popcount_le [where 'a = 64] in simp)
  then show ?thesis
    by simp
qed

text \<open>
  C5, as the code has it.  On arrays that hold the \<open>n_ints\<close> words, and for \<open>n_ints\<close> up to
  \<open>2 ^ 31 - 4\<close>, the scalar kernel returns the sum over \<open>i < n_ints\<close> of
  \<open>popcount (b1[i] & b2[i])\<close>, 0 for \<open>n_ints = 0\<close>.
\<close>

theorem intersect_bitmaps_scalar_correct:
  assumes "in_bounds b1 (unat n_ints)" and "in_bounds b2 (unat n_ints)"
    and "unat n_ints \<le> 2147483644"
  shows "\<exists>r. intersect_bitmaps_scalar b1 b2 n_ints = Some r \<and>
    unat r = and_popcount_sum b1 b2 (unat n_ints)"
proof -
  have "and_popcount_sum b1 b2 (unat n_ints) < 2 ^ 64"
    using and_popcount_sum_le [of b1 b2 "unat n_ints"] assms(3) by simp
  then have "unat (of_nat (and_popcount_sum b1 b2 (unat n_ints)) :: u64) =
      and_popcount_sum b1 b2 (unat n_ints)"
    by (simp add: unat_of_nat)
  then show ?thesis
    using intersect_bitmaps_scalar_sum [OF assms] by simp
qed

theorem intersect_bitmaps_scalar_correct_witness:
  "in_bounds ([1, 3, 7, 15, 31, 0 :: u64], 0) (unat (6 :: u32)) \<and>
   in_bounds ([1, 3, 7, 15, 31, 1 :: u64], 0) (unat (6 :: u32)) \<and>
   unat (6 :: u32) \<le> 2147483644 \<and>
   (\<exists>r. intersect_bitmaps_scalar ([1, 3, 7, 15, 31, 0], 0) ([1, 3, 7, 15, 31, 1], 0) 6 = Some r \<and>
        unat r = and_popcount_sum ([1, 3, 7, 15, 31, 0], 0) ([1, 3, 7, 15, 31, 1], 0) (unat (6 :: u32)))"
proof -
  have h1: "in_bounds ([1, 3, 7, 15, 31, 0 :: u64], 0) (unat (6 :: u32))"
    and h2: "in_bounds ([1, 3, 7, 15, 31, 1 :: u64], 0) (unat (6 :: u32))"
    and h3: "unat (6 :: u32) \<le> 2147483644"
    by (simp_all add: in_bounds_def)
  from intersect_bitmaps_scalar_correct [OF h1 h2 h3] h1 h2 h3 show ?thesis
    by blast
qed

text \<open>
  Beyond that size the loop counter, an \<open>int\<close>, cannot follow \<open>n_ints\<close>: the first loop
  goes on while \<open>i + 4 < n_ints\<close>, and once \<open>i\<close> is \<open>2 ^ 31 - 4\<close> the sum \<open>i + 4\<close> leaves
  the range of \<open>int\<close>.
\<close>

lemma and_popcount_unrolled_overflow:
  assumes "in_bounds b1 (unat n_ints)" and "in_bounds b2 (unat n_ints)"
    and "2147483645 \<le> unat n_ints" and "i mod 4 = 0" and "i \<le> 2147483644"
  shows "and_popcount_unrolled b1 b2 n_ints (int i) cnt = None"
  using assms(4, 5)
proof (induction "2147483644 - i" arbitrary: i cnt rule: less_induct)
  case less
  show ?case
  proof (cases "i = 2147483644")
    case True
    then have "int_add (int i) 4 = None"
      by (simp add: int_add_def INT_MAX_def)
    then show ?thesis
      by (subst and_popcount_unrolled.simps) simp
  next
    case False
    with less.prems have le: "i + 4 \<le> 2147483644"
      by presburger
    then have i4: "int_add (int i) 4 = Some (int (i + 4))"
      by (simp add: int_add_def INT_MAX_def)
    have "unat n_ints < 2 ^ 32"
      using unsigned_less [of n_ints] by simp
    then have cond: "u32_of_int (int (i + 4)) < n_ints"
      using le assms(3) by (subst u32_of_int_less_iff) simp_all
    have r: "rd b1 (int i + 0) = Some (word_at b1 i)" "rd b2 (int i + 0) = Some (word_at b2 i)"
      "rd b1 (int i + 1) = Some (word_at b1 (i + 1))" "rd b2 (int i + 1) = Some (word_at b2 (i + 1))"
      "rd b1 (int i + 2) = Some (word_at b1 (i + 2))" "rd b2 (int i + 2) = Some (word_at b2 (i + 2))"
      "rd b1 (int i + 3) = Some (word_at b1 (i + 3))" "rd b2 (int i + 3) = Some (word_at b2 (i + 3))"
      using le assms(3) by (simp_all add: rd_in_bounds [OF assms(1)] rd_in_bounds [OF assms(2)]
          nat_add_distrib)
    have IH: "and_popcount_unrolled b1 b2 n_ints (int (i + 4)) c = None" for c
      using less.hyps [of "i + 4" c] le less.prems by simp
    show ?thesis
      by (subst and_popcount_unrolled.simps)
        (simp only: i4 cond r option.case if_True bind.bind_lunit IH)
  qed
qed

text \<open>
  C5 as the claim states it, for every \<open>n_ints\<close>, fails: on two arrays of \<open>3 * 10 ^ 9\<close>
  words the kernel has no defined result.
\<close>

theorem intersect_bitmaps_scalar_large_undefined:
  "in_bounds (replicate 3000000000 (0 :: u64), 0) (unat (3000000000 :: u32)) \<and>
   intersect_bitmaps_scalar (replicate 3000000000 0, 0) (replicate 3000000000 0, 0) 3000000000 = None"
proof -
  have b: "in_bounds (replicate 3000000000 (0 :: u64), 0) (unat (3000000000 :: u32))"
    by (simp add: in_bounds_def)
  have "and_popcount_unrolled (replicate 3000000000 0, 0) (replicate 3000000000 0, 0) 3000000000
      (int 0) 0 = None"
    by (rule and_popcount_unrolled_overflow [OF b b]) simp_all
  then show ?thesis
    using b by (simp add: intersect_bitmaps_scalar_def)
qed

section \<open>The blocked driver\<close>

lemma unat_inc: "k < (b :: 'a::len word) \<Longrightarrow> unat (k + 1) = unat k + 1"
  by unat_arith

lemma vec_offset_Suc: "vec_offset W a + W = vec_offset W (Suc a)"
  by (simp add: vec_offset_def algebra_simps)

lemma for_u32_rows:
  fixes H :: "nat \<Rightarrow> 'a::comm_monoid_add" and W :: u32
  assumes "\<And>k t. unat a \<le> k \<Longrightarrow> k < unat b \<Longrightarrow>
    body (of_nat k) (vec_offset W (p0 + (k - unat a)), t) =
      Some (vec_offset W (Suc (p0 + (k - unat a))), t + H k)"
  shows "for_u32 a b body (vec_offset W p0, t0) =
    Some (vec_offset W (p0 + (unat b - unat a)), t0 + (\<Sum>k = unat a..<unat b. H k))"
  using assms
proof (induction "unat b - unat a" arbitrary: a p0 t0)
  case 0
  then have "\<not> a < b"
    by (simp add: word_less_nat_alt)
  then show ?case
    using 0 by (subst for_u32.simps) simp
next
  case (Suc m)
  then have less: "a < b"
    by (simp add: word_less_nat_alt)
  then have ua: "unat (a + 1) = unat a + 1"
    by (rule unat_inc)
  have lt: "unat a < unat b"
    using less by (simp add: word_less_nat_alt)
  have first: "body a (vec_offset W p0, t0) = Some (vec_offset W (Suc p0), t0 + H (unat a))"
    using Suc.prems [of "unat a" t0] lt by simp
  have rest: "for_u32 (a + 1) b body (vec_offset W (Suc p0), t0 + H (unat a)) =
      Some (vec_offset W (Suc p0 + (unat b - unat (a + 1))),
        t0 + H (unat a) + (\<Sum>k = unat (a + 1)..<unat b. H k))"
  proof (rule Suc.hyps(1))
    show "m = unat b - unat (a + 1)"
      using Suc.hyps(2) ua by simp
    show "body (of_nat k) (vec_offset W (Suc p0 + (k - unat (a + 1))), t) =
        Some (vec_offset W (Suc (Suc p0 + (k - unat (a + 1)))), t + H k)"
      if "unat (a + 1) \<le> k" "k < unat b" for k t
    proof -
      have "Suc p0 + (k - unat (a + 1)) = p0 + (k - unat a)"
        using that ua by simp
      then show ?thesis
        using Suc.prems [of k t] that ua by simp
    qed
  qed
  have "for_u32 a b body (vec_offset W p0, t0) =
      for_u32 (a + 1) b body (vec_offset W (Suc p0), t0 + H (unat a))"
    by (subst for_u32.simps) (simp only: less if_True first bind.bind_lunit)
  also note rest
  also have "Suc p0 + (unat b - unat (a + 1)) = p0 + (unat b - unat a)"
    using lt ua by simp
  also have "t0 + H (unat a) + (\<Sum>k = unat (a + 1)..<unat b. H k) =
      t0 + (\<Sum>k = unat a..<unat b. H k)"
    by (simp add: sum.atLeast_Suc_lessThan [OF lt] ua add.assoc)
  finally show ?case .
qed

lemma strips_u32_exit:
  assumes "unat bound < unat k + unat step" and "unat k + unat step < 2 ^ 32"
  shows "strips_u32 k step bound body t0 = Some (k, t0)"
proof -
  have "unat (k + step) = unat k + unat step"
    using assms(2) by (simp add: unat_word_ariths)
  then have "\<not> k + step \<le> bound"
    using assms(1) by (simp add: word_le_nat_alt)
  then show ?thesis
    by (subst strips_u32.simps) simp
qed

lemma strips_u32_sum:
  fixes H :: "nat \<Rightarrow> 'a::comm_monoid_add"
  assumes "0 < unat step" and "unat bound + unat step < 2 ^ 32" and "unat k \<le> unat bound"
    and "\<And>q t. unat k + q * unat step + unat step \<le> unat bound \<Longrightarrow>
      body (of_nat (unat k + q * unat step)) t = Some (t + H q)"
  shows "strips_u32 k step bound body t0 =
    Some (of_nat (unat k + (unat bound - unat k) div unat step * unat step),
      t0 + (\<Sum>q < (unat bound - unat k) div unat step. H q))"
  using assms(3, 4)
proof (induction "(unat bound - unat k) div unat step" arbitrary: k t0 H)
  case 0
  then have "unat bound - unat k < unat step"
    using assms(1) by (simp add: div_eq_0_iff)
  then have "unat bound < unat k + unat step"
    using "0.prems"(1) by simp
  moreover have "unat k + unat step < 2 ^ 32"
    using "0.prems"(1) assms(2) by simp
  ultimately have "strips_u32 k step bound body t0 = Some (k, t0)"
    by (rule strips_u32_exit)
  then show ?case
    using "0.hyps" by simp
next
  case (Suc m)
  have ge: "unat step \<le> unat bound - unat k"
  proof (rule ccontr)
    assume "\<not> unat step \<le> unat bound - unat k"
    then have "(unat bound - unat k) div unat step = 0"
      by simp
    with Suc.hyps(2) show False
      by simp
  qed
  then have le: "unat k + unat step \<le> unat bound"
    using Suc.prems(1) by simp
  have uk: "unat (k + step) = unat k + unat step"
    using le assms(2) by (simp add: unat_word_ariths)
  then have cond: "k + step \<le> bound"
    using le by (simp add: word_le_nat_alt)
  have first: "body k t0 = Some (t0 + H 0)"
    using Suc.prems(2) [of 0 t0] le by simp
  have m: "m = (unat bound - unat (k + step)) div unat step"
  proof -
    have "(unat bound - unat k) div unat step = Suc ((unat bound - unat k - unat step) div unat step)"
      using ge assms(1) by (simp add: le_div_geq)
    with Suc.hyps(2) show ?thesis
      by (simp add: uk)
  qed
  have rest: "strips_u32 (k + step) step bound body (t0 + H 0) =
      Some (of_nat (unat (k + step) + (unat bound - unat (k + step)) div unat step * unat step),
        t0 + H 0 + (\<Sum>q < (unat bound - unat (k + step)) div unat step. H (Suc q)))"
  proof (rule Suc.hyps(1) [OF m])
    show "unat (k + step) \<le> unat bound"
      using le uk by simp
    show "body (of_nat (unat (k + step) + q * unat step)) t = Some (t + H (Suc q))"
      if "unat (k + step) + q * unat step + unat step \<le> unat bound" for q t
      using Suc.prems(2) [of "Suc q" t] that by (simp add: uk add.assoc add.left_commute)
  qed
  have "strips_u32 k step bound body t0 = strips_u32 (k + step) step bound body (t0 + H 0)"
    by (subst strips_u32.simps) (simp only: cond if_True first bind.bind_lunit)
  also note rest
  also have "unat (k + step) + (unat bound - unat (k + step)) div unat step * unat step =
      unat k + (unat bound - unat k) div unat step * unat step"
    unfolding m [symmetric] Suc.hyps(2) [symmetric] by (simp add: uk)
  also have "t0 + H 0 + (\<Sum>q < (unat bound - unat (k + step)) div unat step. H (Suc q)) =
      t0 + (\<Sum>q < (unat bound - unat k) div unat step. H q)"
    unfolding m [symmetric] Suc.hyps(2) [symmetric]
    using sum.lessThan_Suc_shift [of H m] by (simp only: add.assoc)
  finally show ?case .
qed

text \<open>The sums of one strip, and of all strips, put together.\<close>

lemma strip_rows:
  fixes G :: "nat \<Rightarrow> nat \<Rightarrow> 'a::comm_monoid_add"
  assumes "i0 + B + m * B \<le> N"
  shows "(\<Sum>k<B. \<Sum>kk = Suc k..<B. G (i0 + k) (i0 + kk))
      + (\<Sum>q<m. \<Sum>ii<B. \<Sum>jj<B. G (i0 + ii) (i0 + B + q * B + jj))
      + (\<Sum>j = i0 + B + m * B..<N. \<Sum>jj<B. G (i0 + jj) j)
    = (\<Sum>a = i0..<i0 + B. \<Sum>b = Suc a..<N. G a b)"
proof -
  have sq: "(\<Sum>q<m. \<Sum>jj<B. G a (i0 + B + q * B + jj)) = (\<Sum>b = i0 + B..<i0 + B + m * B. G a b)" for a
  proof (induction m)
    case 0
    show ?case by simp
  next
    case (Suc m)
    have "(\<Sum>jj<B. G a (i0 + B + m * B + jj)) = (\<Sum>b = i0 + B + m * B..<i0 + B + m * B + B. G a b)"
      by (rule sum.reindex_bij_witness [of _ "\<lambda>b. b - (i0 + B + m * B)" "\<lambda>jj. i0 + B + m * B + jj"]) auto
    moreover have "i0 + B + Suc m * B = i0 + B + m * B + B"
      by simp
    moreover have "(\<Sum>b = i0 + B..<i0 + B + m * B. G a b)
        + (\<Sum>b = i0 + B + m * B..<i0 + B + m * B + B. G a b)
        = (\<Sum>b = i0 + B..<i0 + B + m * B + B. G a b)"
      by (rule sum.atLeastLessThan_concat) simp_all
    ultimately show ?case
      using Suc by (simp only: sum.lessThan_Suc)
  qed
  have row: "(\<Sum>kk = Suc k..<B. G (i0 + k) (i0 + kk))
      + (\<Sum>b = i0 + B..<i0 + B + m * B. G (i0 + k) b)
      + (\<Sum>b = i0 + B + m * B..<N. G (i0 + k) b)
    = (\<Sum>b = Suc (i0 + k)..<N. G (i0 + k) b)" if "k < B" for k
  proof -
    have "(\<Sum>kk = Suc k..<B. G (i0 + k) (i0 + kk)) = (\<Sum>b = Suc (i0 + k)..<i0 + B. G (i0 + k) b)"
      by (rule sum.reindex_bij_witness [of _ "\<lambda>b. b - i0" "\<lambda>kk. i0 + kk"]) auto
    then show ?thesis
      using that assms by (simp add: sum.atLeastLessThan_concat)
  qed
  have "(\<Sum>q<m. \<Sum>ii<B. \<Sum>jj<B. G (i0 + ii) (i0 + B + q * B + jj))
      = (\<Sum>ii<B. \<Sum>b = i0 + B..<i0 + B + m * B. G (i0 + ii) b)"
    by (subst sum.swap) (simp add: sq)
  moreover have "(\<Sum>j = i0 + B + m * B..<N. \<Sum>jj<B. G (i0 + jj) j)
      = (\<Sum>jj<B. \<Sum>j = i0 + B + m * B..<N. G (i0 + jj) j)"
    by (rule sum.swap)
  ultimately have "(\<Sum>k<B. \<Sum>kk = Suc k..<B. G (i0 + k) (i0 + kk))
      + (\<Sum>q<m. \<Sum>ii<B. \<Sum>jj<B. G (i0 + ii) (i0 + B + q * B + jj))
      + (\<Sum>j = i0 + B + m * B..<N. \<Sum>jj<B. G (i0 + jj) j)
    = (\<Sum>k<B. (\<Sum>kk = Suc k..<B. G (i0 + k) (i0 + kk))
      + (\<Sum>b = i0 + B..<i0 + B + m * B. G (i0 + k) b)
      + (\<Sum>b = i0 + B + m * B..<N. G (i0 + k) b))"
    by (simp add: sum.distrib)
  also have "\<dots> = (\<Sum>k<B. \<Sum>b = Suc (i0 + k)..<N. G (i0 + k) b)"
    by (rule sum.cong) (simp_all add: row)
  also have "\<dots> = (\<Sum>a = i0..<i0 + B. \<Sum>b = Suc a..<N. G a b)"
    by (rule sum.reindex_bij_witness [of _ "\<lambda>a. a - i0" "\<lambda>k. i0 + k"]) auto
  finally show ?thesis .
qed

lemma strips_rows:
  fixes R :: "nat \<Rightarrow> 'a::comm_monoid_add"
  shows "(\<Sum>q<m. \<Sum>a = q * B..<q * B + B. R a) = (\<Sum>a<m * B. R a)"
proof (induction m)
  case 0
  show ?case by simp
next
  case (Suc m)
  have "(\<Sum>a<m * B. R a) + (\<Sum>a = m * B..<m * B + B. R a) = (\<Sum>a<m * B + B. R a)"
    by (simp add: lessThan_atLeast0 sum.atLeastLessThan_concat)
  moreover have "Suc m * B = m * B + B"
    by simp
  ultimately show ?case
    using Suc by (simp only: sum.lessThan_Suc)
qed


lemma unat_of_nat_u32: "k < 2 ^ 32 \<Longrightarrow> unat (of_nat k :: u32) = k"
  by (simp add: unat_of_nat)

lemma unat_of_nat_Suc_u32: "Suc k < 2 ^ 32 \<Longrightarrow> unat (of_nat k + 1 :: u32) = Suc k"
  using unat_of_nat_u32 [of "Suc k"] by (simp add: add.commute)

lemma diagonal_component_sum:
  fixes G :: "nat \<Rightarrow> nat \<Rightarrow> 'a::comm_monoid_add"
  assumes step: "\<And>a b. i0 \<le> a \<Longrightarrow> a < b \<Longrightarrow> b < i0 + unat B \<Longrightarrow>
      step (vec_offset W a) (vec_offset W b) (of_nat a) (of_nat b) = Some (G a b)"
  shows "diagonal_component W step B (of_nat i0) t0 =
    Some (t0 + (\<Sum>k<unat B. \<Sum>kk = Suc k..<unat B. G (i0 + k) (i0 + kk)))"
proof -
  have B: "unat B < 2 ^ 32"
    using unsigned_less [of B] by simp
  have inner: "for_u32 (of_nat k + 1) B (\<lambda>jj (right, tot). do {
           v \<leftarrow> step (vec_offset W (i0 + k)) right (of_nat i0 + of_nat k) (of_nat i0 + jj);
           Some (right + W, tot + v)
         }) (vec_offset W (Suc (i0 + k)), t) =
      Some (vec_offset W (Suc (i0 + k) + (unat B - Suc k)),
        t + (\<Sum>kk = Suc k..<unat B. G (i0 + k) (i0 + kk)))" if "k < unat B" for k t
  proof -
    have u: "unat (of_nat k + 1 :: u32) = Suc k"
      using that B by (intro unat_of_nat_Suc_u32) simp
    have "for_u32 (of_nat k + 1) B (\<lambda>jj (right, tot). do {
           v \<leftarrow> step (vec_offset W (i0 + k)) right (of_nat i0 + of_nat k) (of_nat i0 + jj);
           Some (right + W, tot + v)
         }) (vec_offset W (Suc (i0 + k)), t) =
      Some (vec_offset W (Suc (i0 + k) + (unat B - unat (of_nat k + 1 :: u32))),
        t + (\<Sum>kk = unat (of_nat k + 1 :: u32)..<unat B. G (i0 + k) (i0 + kk)))"
    proof (rule for_u32_rows)
      fix kk t'
      assume kk: "unat (of_nat k + 1 :: u32) \<le> kk" "kk < unat B"
      then have e: "Suc (i0 + k + (kk - unat (of_nat k + 1 :: u32))) = i0 + kk"
        by (simp add: u)
      have "step (vec_offset W (i0 + k)) (vec_offset W (i0 + kk)) (of_nat (i0 + k)) (of_nat (i0 + kk)) =
          Some (G (i0 + k) (i0 + kk))"
        using kk by (intro step) (simp_all add: u)
      then show "(case (vec_offset W (Suc (i0 + k) + (kk - unat (of_nat k + 1 :: u32))), t') of
          (right, tot) \<Rightarrow> do {
            v \<leftarrow> step (vec_offset W (i0 + k)) right (of_nat i0 + of_nat k) (of_nat i0 + of_nat kk);
            Some (right + W, tot + v)
          }) = Some (vec_offset W (Suc (Suc (i0 + k) + (kk - unat (of_nat k + 1 :: u32)))),
            t' + G (i0 + k) (i0 + kk))"
        by (simp add: e vec_offset_Suc)
    qed
    then show ?thesis
      by (simp only: u)
  qed
  have outer: "for_u32 0 B (\<lambda>j (left, tot). do {
        (right, tot) \<leftarrow> for_u32 (j + 1) B (\<lambda>jj (right, tot). do {
           v \<leftarrow> step left right (of_nat i0 + j) (of_nat i0 + jj);
           Some (right + W, tot + v)
         }) (left + W, tot);
        Some (left + W, tot)
      }) (vec_offset W i0, t0) =
    Some (vec_offset W (i0 + (unat B - unat (0 :: u32))),
      t0 + (\<Sum>k = unat (0 :: u32)..<unat B. \<Sum>kk = Suc k..<unat B. G (i0 + k) (i0 + kk)))"
  proof (rule for_u32_rows)
    fix k t
    assume "unat (0 :: u32) \<le> k" "k < unat B"
    then show "(case (vec_offset W (i0 + (k - unat (0 :: u32))), t) of
        (left, tot) \<Rightarrow> do {
          (right, tot) \<leftarrow> for_u32 (of_nat k + 1) B (\<lambda>jj (right, tot). do {
             v \<leftarrow> step left right (of_nat i0 + of_nat k) (of_nat i0 + jj);
             Some (right + W, tot + v)
           }) (left + W, tot);
          Some (left + W, tot)
        }) = Some (vec_offset W (Suc (i0 + (k - unat (0 :: u32)))),
          t + (\<Sum>kk = Suc k..<unat B. G (i0 + k) (i0 + kk)))"
      by (simp add: vec_offset_Suc inner)
  qed
  show ?thesis
    unfolding diagonal_component_def vec_offset_def [symmetric]
    by (simp add: outer lessThan_atLeast0)
qed


lemma tile_sum:
  fixes G :: "nat \<Rightarrow> nat \<Rightarrow> 'a::comm_monoid_add"
  assumes step: "\<And>ii jj. ii < unat B \<Longrightarrow> jj < unat B \<Longrightarrow>
      step (vec_offset W (i0 + ii)) (vec_offset W (j0 + jj)) (of_nat (i0 + ii)) (of_nat (j0 + jj)) =
        Some (G (i0 + ii) (j0 + jj))"
  shows "for_u32 0 B (\<lambda>ii (left, tot). do {
           (right, tot) \<leftarrow> for_u32 0 B (\<lambda>jj (right, tot). do {
              v \<leftarrow> step left right (of_nat i0 + ii) (of_nat j0 + jj);
              Some (right + W, tot + v)
            }) (vec_offset W j0, tot);
           Some (left + W, tot)
         }) (vec_offset W i0, t0) =
    Some (vec_offset W (i0 + (unat B - unat (0 :: u32))),
      t0 + (\<Sum>ii = unat (0 :: u32)..<unat B. \<Sum>jj<unat B. G (i0 + ii) (j0 + jj)))"
proof (rule for_u32_rows)
  fix ii t
  assume ii: "unat (0 :: u32) \<le> ii" "ii < unat B"
  have "for_u32 0 B (\<lambda>jj (right, tot). do {
              v \<leftarrow> step (vec_offset W (i0 + ii)) right (of_nat i0 + of_nat ii) (of_nat j0 + jj);
              Some (right + W, tot + v)
            }) (vec_offset W j0, t) =
      Some (vec_offset W (j0 + (unat B - unat (0 :: u32))),
        t + (\<Sum>jj = unat (0 :: u32)..<unat B. G (i0 + ii) (j0 + jj)))"
  proof (rule for_u32_rows)
    fix jj t'
    assume "unat (0 :: u32) \<le> jj" "jj < unat B"
    then show "(case (vec_offset W (j0 + (jj - unat (0 :: u32))), t') of
        (right, tot) \<Rightarrow> do {
          v \<leftarrow> step (vec_offset W (i0 + ii)) right (of_nat i0 + of_nat ii) (of_nat j0 + of_nat jj);
          Some (right + W, tot + v)
        }) = Some (vec_offset W (Suc (j0 + (jj - unat (0 :: u32)))), t' + G (i0 + ii) (j0 + jj))"
      using step [of ii jj] ii by (simp add: vec_offset_Suc)
  qed
  then show "(case (vec_offset W (i0 + (ii - unat (0 :: u32))), t) of
      (left, tot) \<Rightarrow> do {
        (right, tot) \<leftarrow> for_u32 0 B (\<lambda>jj (right, tot). do {
           v \<leftarrow> step left right (of_nat i0 + of_nat ii) (of_nat j0 + jj);
           Some (right + W, tot + v)
         }) (vec_offset W j0, tot);
        Some (left + W, tot)
      }) = Some (vec_offset W (Suc (i0 + (ii - unat (0 :: u32)))),
        t + (\<Sum>jj<unat B. G (i0 + ii) (j0 + jj)))"
    by (simp add: vec_offset_Suc lessThan_atLeast0)
qed

lemma square_component_sum:
  fixes G :: "nat \<Rightarrow> nat \<Rightarrow> 'a::comm_monoid_add"
  assumes step: "\<And>a b. i0 \<le> a \<Longrightarrow> a < i0 + unat B \<Longrightarrow> i0 + unat B \<le> b \<Longrightarrow> b < unat N \<Longrightarrow>
      step (vec_offset W a) (vec_offset W b) (of_nat a) (of_nat b) = Some (G a b)"
    and B: "0 < unat B" and nowrap: "unat N + unat B < 2 ^ 32" and le: "i0 + unat B \<le> unat N"
  shows "square_component W step B N (of_nat i0) t0 =
    Some (of_nat (i0 + unat B + (unat N - (i0 + unat B)) div unat B * unat B),
      t0 + (\<Sum>q < (unat N - (i0 + unat B)) div unat B. \<Sum>ii<unat B. \<Sum>jj<unat B.
              G (i0 + ii) (i0 + unat B + q * unat B + jj)))"
proof -
  have uk: "unat (of_nat i0 + B :: u32) = i0 + unat B"
    using le nowrap unat_of_nat_u32 [of "i0 + unat B"] by simp
  have "strips_u32 (of_nat i0 + B) B N (\<lambda>j tot. do {
        (left, tot) \<leftarrow> for_u32 0 B (\<lambda>ii (left, tot). do {
           (right, tot) \<leftarrow> for_u32 0 B (\<lambda>jj (right, tot). do {
              v \<leftarrow> step left right (of_nat i0 + ii) (j + jj);
              Some (right + W, tot + v)
            }) (j * W, tot);
           Some (left + W, tot)
         }) (vec_offset W i0, tot);
        Some tot
      }) t0 =
    Some (of_nat (unat (of_nat i0 + B :: u32) + (unat N - unat (of_nat i0 + B :: u32)) div unat B * unat B),
      t0 + (\<Sum>q < (unat N - unat (of_nat i0 + B :: u32)) div unat B. \<Sum>ii<unat B. \<Sum>jj<unat B.
              G (i0 + ii) (i0 + unat B + q * unat B + jj)))"
  proof (rule strips_u32_sum [OF B nowrap])
    show "unat (of_nat i0 + B :: u32) \<le> unat N"
      using le uk by simp
    fix q t
    assume q: "unat (of_nat i0 + B :: u32) + q * unat B + unat B \<le> unat N"
    define j0 where "j0 = i0 + unat B + q * unat B"
    have j0: "unat (of_nat i0 + B :: u32) + q * unat B = j0"
      by (simp add: uk j0_def)
    have tile: "for_u32 0 B (\<lambda>ii (left, tot). do {
           (right, tot) \<leftarrow> for_u32 0 B (\<lambda>jj (right, tot). do {
              v \<leftarrow> step left right (of_nat i0 + ii) (of_nat j0 + jj);
              Some (right + W, tot + v)
            }) (vec_offset W j0, tot);
           Some (left + W, tot)
         }) (vec_offset W i0, t) =
      Some (vec_offset W (i0 + (unat B - unat (0 :: u32))),
        t + (\<Sum>ii = unat (0 :: u32)..<unat B. \<Sum>jj<unat B. G (i0 + ii) (j0 + jj)))"
    proof (rule tile_sum)
      fix ii jj
      assume "ii < unat B" "jj < unat B"
      then show "step (vec_offset W (i0 + ii)) (vec_offset W (j0 + jj)) (of_nat (i0 + ii))
          (of_nat (j0 + jj)) = Some (G (i0 + ii) (j0 + jj))"
        using q by (intro step) (simp_all add: uk j0_def)
    qed
    show "do {
        (left, tot) \<leftarrow> for_u32 0 B (\<lambda>ii (left, tot). do {
           (right, tot) \<leftarrow> for_u32 0 B (\<lambda>jj (right, tot). do {
              v \<leftarrow> step left right (of_nat i0 + ii)
                (of_nat (unat (of_nat i0 + B :: u32) + q * unat B) + jj);
              Some (right + W, tot + v)
            }) (of_nat (unat (of_nat i0 + B :: u32) + q * unat B) * W, tot);
           Some (left + W, tot)
         }) (vec_offset W i0, t);
        Some tot
      } = Some (t + (\<Sum>ii<unat B. \<Sum>jj<unat B. G (i0 + ii) (i0 + unat B + q * unat B + jj)))"
      unfolding j0 j0_def [symmetric] vec_offset_def [symmetric]
      by (simp add: tile lessThan_atLeast0)
  qed
  then show ?thesis
    unfolding square_component_def vec_offset_def [symmetric]
    by (simp only: uk)
qed

lemma residual_component_sum:
  fixes G :: "nat \<Rightarrow> nat \<Rightarrow> 'a::comm_monoid_add"
  assumes step: "\<And>a b. i0 \<le> a \<Longrightarrow> a < i0 + unat B \<Longrightarrow> j0 \<le> b \<Longrightarrow> b < unat N \<Longrightarrow>
      step (vec_offset W a) (vec_offset W b) (of_nat a) (of_nat b) = Some (G a b)"
    and le: "j0 \<le> unat N"
  shows "residual_component W step B N (of_nat i0) (of_nat j0) t0 =
    Some (t0 + (\<Sum>j = j0..<unat N. \<Sum>jj<unat B. G (i0 + jj) j))"
proof -
  have N: "unat N < 2 ^ 32"
    using unsigned_less [of N] by simp
  have uj: "unat (of_nat j0 :: u32) = j0"
    using le N by (intro unat_of_nat_u32) simp
  have "for_u32 (of_nat j0) N (\<lambda>j (right, tot). do {
        (left, tot) \<leftarrow> for_u32 0 B (\<lambda>jj (left, tot). do {
           v \<leftarrow> step left right (of_nat i0 + jj) j;
           Some (left + W, tot + v)
         }) (vec_offset W i0, tot);
        Some (right + W, tot)
      }) (vec_offset W j0, t0) =
    Some (vec_offset W (j0 + (unat N - unat (of_nat j0 :: u32))),
      t0 + (\<Sum>j = unat (of_nat j0 :: u32)..<unat N. \<Sum>jj<unat B. G (i0 + jj) j))"
  proof (rule for_u32_rows)
    fix j t
    assume j: "unat (of_nat j0 :: u32) \<le> j" "j < unat N"
    then have e: "j0 + (j - unat (of_nat j0 :: u32)) = j"
      by (simp add: uj)
    have "for_u32 0 B (\<lambda>jj (left, tot). do {
           v \<leftarrow> step left (vec_offset W j) (of_nat i0 + jj) (of_nat j);
           Some (left + W, tot + v)
         }) (vec_offset W i0, t) =
      Some (vec_offset W (i0 + (unat B - unat (0 :: u32))),
        t + (\<Sum>jj = unat (0 :: u32)..<unat B. G (i0 + jj) j))"
    proof (rule for_u32_rows)
      fix jj t'
      assume "unat (0 :: u32) \<le> jj" "jj < unat B"
      then show "(case (vec_offset W (i0 + (jj - unat (0 :: u32))), t') of
          (left, tot) \<Rightarrow> do {
            v \<leftarrow> step left (vec_offset W j) (of_nat i0 + of_nat jj) (of_nat j);
            Some (left + W, tot + v)
          }) = Some (vec_offset W (Suc (i0 + (jj - unat (0 :: u32)))), t' + G (i0 + jj) j)"
        using step [of "i0 + jj" j] j by (simp add: vec_offset_Suc uj)
    qed
    then show "(case (vec_offset W (j0 + (j - unat (of_nat j0 :: u32))), t) of
        (right, tot) \<Rightarrow> do {
          (left, tot) \<leftarrow> for_u32 0 B (\<lambda>jj (left, tot). do {
             v \<leftarrow> step left right (of_nat i0 + jj) (of_nat j);
             Some (left + W, tot + v)
           }) (vec_offset W i0, tot);
          Some (right + W, tot)
        }) = Some (vec_offset W (Suc (j0 + (j - unat (of_nat j0 :: u32)))),
          t + (\<Sum>jj<unat B. G (i0 + jj) j))"
      by (simp add: e vec_offset_Suc lessThan_atLeast0)
  qed
  then show ?thesis
    unfolding residual_component_def vec_offset_def [symmetric]
    by (simp add: uj)
qed

lemma residual_tail_sum:
  fixes G :: "nat \<Rightarrow> nat \<Rightarrow> 'a::comm_monoid_add"
  assumes step: "\<And>a b. i1 \<le> a \<Longrightarrow> a < b \<Longrightarrow> b < unat N \<Longrightarrow>
      step (vec_offset W a) (vec_offset W b) (of_nat a) (of_nat b) = Some (G a b)"
    and le: "i1 \<le> unat N"
  shows "residual_tail W step N (of_nat i1) t0 =
    Some (t0 + (\<Sum>a = i1..<unat N. \<Sum>b = Suc a..<unat N. G a b))"
proof -
  have N: "unat N < 2 ^ 32"
    using unsigned_less [of N] by simp
  have ui: "unat (of_nat i1 :: u32) = i1"
    using le N by (intro unat_of_nat_u32) simp
  have "for_u32 (of_nat i1) N (\<lambda>i (left, tot). do {
        (right, tot) \<leftarrow> for_u32 (i + 1) N (\<lambda>j (right, tot). do {
           v \<leftarrow> step left right i j;
           Some (right + W, tot + v)
         }) (left + W, tot);
        Some (left + W, tot)
      }) (vec_offset W i1, t0) =
    Some (vec_offset W (i1 + (unat N - unat (of_nat i1 :: u32))),
      t0 + (\<Sum>a = unat (of_nat i1 :: u32)..<unat N. \<Sum>b = Suc a..<unat N. G a b))"
  proof (rule for_u32_rows)
    fix a t
    assume a: "unat (of_nat i1 :: u32) \<le> a" "a < unat N"
    then have e: "i1 + (a - unat (of_nat i1 :: u32)) = a"
      by (simp add: ui)
    have u: "unat (of_nat a + 1 :: u32) = Suc a"
      using a N by (intro unat_of_nat_Suc_u32) simp
    have "for_u32 (of_nat a + 1) N (\<lambda>j (right, tot). do {
           v \<leftarrow> step (vec_offset W a) right (of_nat a) j;
           Some (right + W, tot + v)
         }) (vec_offset W (Suc a), t) =
      Some (vec_offset W (Suc a + (unat N - unat (of_nat a + 1 :: u32))),
        t + (\<Sum>b = unat (of_nat a + 1 :: u32)..<unat N. G a b))"
    proof (rule for_u32_rows)
      fix b t'
      assume b: "unat (of_nat a + 1 :: u32) \<le> b" "b < unat N"
      then have e': "Suc (a + (b - unat (of_nat a + 1 :: u32))) = b"
        by (simp add: u)
      show "(case (vec_offset W (Suc a + (b - unat (of_nat a + 1 :: u32))), t') of
          (right, tot) \<Rightarrow> do {
            v \<leftarrow> step (vec_offset W a) right (of_nat a) (of_nat b);
            Some (right + W, tot + v)
          }) = Some (vec_offset W (Suc (Suc a + (b - unat (of_nat a + 1 :: u32)))), t' + G a b)"
        using step [of a b] a b by (simp add: e' vec_offset_Suc u ui)
    qed
    then show "(case (vec_offset W (i1 + (a - unat (of_nat i1 :: u32))), t) of
        (left, tot) \<Rightarrow> do {
          (right, tot) \<leftarrow> for_u32 (of_nat a + 1) N (\<lambda>j (right, tot). do {
             v \<leftarrow> step left right (of_nat a) j;
             Some (right + W, tot + v)
           }) (left + W, tot);
          Some (left + W, tot)
        }) = Some (vec_offset W (Suc (i1 + (a - unat (of_nat i1 :: u32)))),
          t + (\<Sum>b = Suc a..<unat N. G a b))"
      by (simp add: e vec_offset_Suc u)
  qed
  then show ?thesis
    unfolding residual_tail_def vec_offset_def [symmetric]
    by (simp add: ui)
qed


lemma blocked_pairs_sum:
  fixes G :: "nat \<Rightarrow> nat \<Rightarrow> 'a::comm_monoid_add"
  assumes step: "\<And>a b. a < b \<Longrightarrow> b < unat N \<Longrightarrow>
      step (vec_offset W a) (vec_offset W b) (of_nat a) (of_nat b) = Some (G a b)"
    and small: "unat N < 2 ^ 31"
  shows "blocked_pairs N W step B0 = Some (\<Sum>a<unat N. \<Sum>b = Suc a..<unat N. G a b)"
proof -
  define B where "B = (if B0 = 0 then 3 else B0)"
  define R where "R a = (\<Sum>b = Suc a..<unat N. G a b)" for a
  have "B \<noteq> 0"
    by (simp add: B_def)
  then have Bpos: "0 < unat B"
    by (simp add: unat_gt_0)
  have B32: "unat B < 2 ^ 32"
    using unsigned_less [of B] by simp
  have tail: "residual_tail W step N (of_nat i1) t = Some (t + (\<Sum>a = i1..<unat N. R a))"
    if "i1 \<le> unat N" for i1 t
    unfolding R_def using that by (intro residual_tail_sum step) simp_all
  have unfold: "blocked_pairs N W step B0 = do {
        (i, tot) \<leftarrow> strips_u32 0 B N (\<lambda>i tot. do {
           tot \<leftarrow> diagonal_component W step B i tot;
           (j, tot) \<leftarrow> square_component W step B N i tot;
           residual_component W step B N i j tot
         }) 0;
        residual_tail W step N i tot
      }"
    by (simp add: blocked_pairs_def B_def)
  show ?thesis
  proof (cases "unat N < unat B")
    case True
    have "strips_u32 0 B N (\<lambda>i tot. do {
           tot \<leftarrow> diagonal_component W step B i tot;
           (j, tot) \<leftarrow> square_component W step B N i tot;
           residual_component W step B N i j tot
         }) (0 :: 'a) = Some (0, 0)"
      using True B32 by (intro strips_u32_exit) simp_all
    then show ?thesis
      using tail [of 0 0] by (simp add: unfold R_def lessThan_atLeast0)
  next
    case False
    then have nowrap: "unat N + unat B < 2 ^ 32"
      using small by simp
    define i1 where "i1 = unat N div unat B * unat B"
    have i1: "i1 \<le> unat N"
      by (simp add: i1_def)
    have strips: "strips_u32 0 B N (\<lambda>i tot. do {
           tot \<leftarrow> diagonal_component W step B i tot;
           (j, tot) \<leftarrow> square_component W step B N i tot;
           residual_component W step B N i j tot
         }) (0 :: 'a) =
      Some (of_nat (unat (0 :: u32) + (unat N - unat (0 :: u32)) div unat B * unat B),
        0 + (\<Sum>q < (unat N - unat (0 :: u32)) div unat B.
              \<Sum>a = q * unat B..<q * unat B + unat B. R a))"
    proof (rule strips_u32_sum [OF Bpos nowrap])
      show "unat (0 :: u32) \<le> unat N"
        by simp
      fix q t
      assume "unat (0 :: u32) + q * unat B + unat B \<le> unat N"
      then have q: "q * unat B + unat B \<le> unat N"
        by simp
      define i0 where "i0 = q * unat B"
      define m where "m = (unat N - (i0 + unat B)) div unat B"
      have "m * unat B \<le> unat N - (i0 + unat B)"
        unfolding m_def by (rule div_times_less_eq_dividend)
      then have m: "i0 + unat B + m * unat B \<le> unat N"
        using q by (simp add: i0_def)
      have d: "diagonal_component W step B (of_nat i0) t =
          Some (t + (\<Sum>k<unat B. \<Sum>kk = Suc k..<unat B. G (i0 + k) (i0 + kk)))"
        using q by (intro diagonal_component_sum step) (simp_all add: i0_def)
      have s: "square_component W step B N (of_nat i0) t' =
          Some (of_nat (i0 + unat B + m * unat B),
            t' + (\<Sum>q<m. \<Sum>ii<unat B. \<Sum>jj<unat B. G (i0 + ii) (i0 + unat B + q * unat B + jj)))"
        for t'
        unfolding m_def using q
        by (intro square_component_sum step Bpos nowrap) (simp_all add: i0_def)
      have r: "residual_component W step B N (of_nat i0) (of_nat (i0 + unat B + m * unat B)) t' =
          Some (t' + (\<Sum>j = i0 + unat B + m * unat B..<unat N. \<Sum>jj<unat B. G (i0 + jj) j))"
        for t'
        using m by (intro residual_component_sum step) simp_all
      have "do {
           tot \<leftarrow> diagonal_component W step B (of_nat i0) t;
           (j, tot) \<leftarrow> square_component W step B N (of_nat i0) tot;
           residual_component W step B N (of_nat i0) j tot
         } = Some (t + ((\<Sum>k<unat B. \<Sum>kk = Suc k..<unat B. G (i0 + k) (i0 + kk))
            + (\<Sum>q<m. \<Sum>ii<unat B. \<Sum>jj<unat B. G (i0 + ii) (i0 + unat B + q * unat B + jj))
            + (\<Sum>j = i0 + unat B + m * unat B..<unat N. \<Sum>jj<unat B. G (i0 + jj) j)))"
        by (simp only: d s r bind.bind_lunit prod.case) (simp only: add.assoc)
      also have "(\<Sum>k<unat B. \<Sum>kk = Suc k..<unat B. G (i0 + k) (i0 + kk))
            + (\<Sum>q<m. \<Sum>ii<unat B. \<Sum>jj<unat B. G (i0 + ii) (i0 + unat B + q * unat B + jj))
            + (\<Sum>j = i0 + unat B + m * unat B..<unat N. \<Sum>jj<unat B. G (i0 + jj) j)
          = (\<Sum>a = i0..<i0 + unat B. R a)"
        unfolding R_def using m by (rule strip_rows)
      finally show "do {
           tot \<leftarrow> diagonal_component W step B (of_nat (unat (0 :: u32) + q * unat B)) t;
           (j, tot) \<leftarrow> square_component W step B N (of_nat (unat (0 :: u32) + q * unat B)) tot;
           residual_component W step B N (of_nat (unat (0 :: u32) + q * unat B)) j tot
         } = Some (t + (\<Sum>a = q * unat B..<q * unat B + unat B. R a))"
        by (simp add: i0_def)
    qed
    have "(\<Sum>q < unat N div unat B. \<Sum>a = q * unat B..<q * unat B + unat B. R a) = (\<Sum>a<i1. R a)"
      unfolding i1_def by (rule strips_rows)
    then have "strips_u32 0 B N (\<lambda>i tot. do {
           tot \<leftarrow> diagonal_component W step B i tot;
           (j, tot) \<leftarrow> square_component W step B N i tot;
           residual_component W step B N i j tot
         }) (0 :: 'a) = Some (of_nat i1, \<Sum>a<i1. R a)"
      using strips by (simp add: i1_def)
    moreover have "(\<Sum>a<i1. R a) + (\<Sum>a = i1..<unat N. R a) = (\<Sum>a<unat N. R a)"
      using i1 by (simp add: lessThan_atLeast0 sum.atLeastLessThan_concat)
    ultimately show ?thesis
      using tail [OF i1] by (simp add: unfold R_def)
  qed
qed


lemma unat_vec_offset:
  "i * unat n_ints < 2 ^ 32 \<Longrightarrow> unat (vec_offset n_ints i) = i * unat n_ints"
proof -
  assume a: "i * unat n_ints < 2 ^ 32"
  have "unat (vec_offset n_ints i) = (i mod 2 ^ 32 * unat n_ints) mod 2 ^ 32"
    by (simp add: vec_offset_def unat_word_ariths unat_of_nat)
  also have "\<dots> = (i * unat n_ints) mod 2 ^ 32"
    by (simp add: mod_mult_left_eq)
  finally show ?thesis
    using a by simp
qed

lemma c_fwrapper_blocked_sum:
  fixes g :: "u32 \<Rightarrow> u32 \<Rightarrow> 'a::comm_monoid_add"
  assumes kern: "\<And>l r. f (ptr_add vals (unat l)) (ptr_add vals (unat r)) n_ints = Some (g l r)"
    and small: "unat n_vectors < 2 ^ 31"
  shows "c_fwrapper_blocked n_vectors vals n_ints f block_size =
    Some (\<Sum>i<unat n_vectors. \<Sum>j = Suc i..<unat n_vectors.
            g (vec_offset n_ints i) (vec_offset n_ints j))"
  unfolding c_fwrapper_blocked_def
  by (rule blocked_pairs_sum [OF _ small]) (rule kern)

lemma sum_singletons: "finite S \<Longrightarrow> (\<Sum>x\<in>S. {#F x#}) = image_mset F (mset_set S)"
  by (induction S rule: finite_induct) simp_all

lemma pairs_Sigma: "(SIGMA i:{..<N}. {Suc i..<N}) = {(i, j). i < j \<and> j < (N :: nat)}"
  by auto

lemma finite_pairs: "finite {(i, j). i < j \<and> j < (N :: nat)}"
  unfolding pairs_Sigma [symmetric] by simp

text \<open>
  C4, as the code has it.  For fewer than \<open>2 ^ 31\<close> vectors, the last of which starts at
  a word offset \<open>(N - 1) * W\<close> below \<open>2 ^ 32\<close>, and for every block size (0 included),
  the blocked driver returns the sum of the kernel's results over the pairs \<open>i < j\<close>, the
  total of the plain double loop; run on the recording kernel it makes exactly one call
  for each such pair and no other.
\<close>

theorem c_fwrapper_blocked_pairs_once:
  fixes g :: "u64 ptr \<Rightarrow> u64 ptr \<Rightarrow> u32 \<Rightarrow> 'a::comm_monoid_add"
  assumes "unat n_vectors < 2 ^ 31" and "(unat n_vectors - 1) * unat n_ints < 2 ^ 32"
  shows "c_fwrapper_blocked n_vectors vals n_ints (\<lambda>a b n. Some (g a b n)) block_size =
      Some (\<Sum>i<unat n_vectors. \<Sum>j = Suc i..<unat n_vectors.
              g (ptr_add vals (i * unat n_ints)) (ptr_add vals (j * unat n_ints)) n_ints) \<and>
    c_fwrapper_blocked n_vectors vals n_ints record_dense block_size =
      Some (image_mset (\<lambda>(i, j). Dense (snd vals + i * unat n_ints) (snd vals + j * unat n_ints))
              (mset_set {(i, j). i < j \<and> j < unat n_vectors}))"
proof -
  have off: "unat (vec_offset n_ints i) = i * unat n_ints" if "i < unat n_vectors" for i
  proof (rule unat_vec_offset)
    have "i * unat n_ints \<le> (unat n_vectors - 1) * unat n_ints"
      using that by (intro mult_le_mono1) simp
    then show "i * unat n_ints < 2 ^ 32"
      using assms(2) by (rule le_less_trans)
  qed
  have "c_fwrapper_blocked n_vectors vals n_ints (\<lambda>a b n. Some (g a b n)) block_size =
      Some (\<Sum>i<unat n_vectors. \<Sum>j = Suc i..<unat n_vectors.
        g (ptr_add vals (unat (vec_offset n_ints i))) (ptr_add vals (unat (vec_offset n_ints j))) n_ints)"
    by (rule c_fwrapper_blocked_sum [OF _ assms(1)]) simp
  also have "(\<Sum>i<unat n_vectors. \<Sum>j = Suc i..<unat n_vectors.
        g (ptr_add vals (unat (vec_offset n_ints i))) (ptr_add vals (unat (vec_offset n_ints j))) n_ints) =
      (\<Sum>i<unat n_vectors. \<Sum>j = Suc i..<unat n_vectors.
        g (ptr_add vals (i * unat n_ints)) (ptr_add vals (j * unat n_ints)) n_ints)"
    by (intro sum.cong refl) (simp add: off)
  finally have first: "c_fwrapper_blocked n_vectors vals n_ints (\<lambda>a b n. Some (g a b n)) block_size =
      Some (\<Sum>i<unat n_vectors. \<Sum>j = Suc i..<unat n_vectors.
              g (ptr_add vals (i * unat n_ints)) (ptr_add vals (j * unat n_ints)) n_ints)" .
  have "c_fwrapper_blocked n_vectors vals n_ints record_dense block_size =
      Some (\<Sum>i<unat n_vectors. \<Sum>j = Suc i..<unat n_vectors.
        {#Dense (snd vals + unat (vec_offset n_ints i)) (snd vals + unat (vec_offset n_ints j))#})"
    by (rule c_fwrapper_blocked_sum [OF _ assms(1)]) (simp add: record_dense_def ptr_add_def)
  also have "(\<Sum>i<unat n_vectors. \<Sum>j = Suc i..<unat n_vectors.
        {#Dense (snd vals + unat (vec_offset n_ints i)) (snd vals + unat (vec_offset n_ints j))#}) =
      (\<Sum>i<unat n_vectors. \<Sum>j = Suc i..<unat n_vectors.
        {#Dense (snd vals + i * unat n_ints) (snd vals + j * unat n_ints)#})"
    by (intro sum.cong refl) (simp add: off)
  also have "\<dots> = (\<Sum>(i, j)\<in>(SIGMA i:{..<unat n_vectors}. {Suc i..<unat n_vectors}).
        {#Dense (snd vals + i * unat n_ints) (snd vals + j * unat n_ints)#})"
    by (rule sum.Sigma) simp_all
  also have "\<dots> = image_mset (\<lambda>(i, j). Dense (snd vals + i * unat n_ints) (snd vals + j * unat n_ints))
        (mset_set {(i, j). i < j \<and> j < unat n_vectors})"
    unfolding pairs_Sigma
    using sum_singletons [OF finite_pairs, of "\<lambda>(i, j). Dense (snd vals + i * unat n_ints) (snd vals + j * unat n_ints)"]
    by (simp add: case_prod_unfold)
  finally show ?thesis
    using first by simp
qed

theorem c_fwrapper_blocked_pairs_once_witness:
  "unat (7 :: u32) < 2 ^ 31 \<and> (unat (7 :: u32) - 1) * unat (2 :: u32) < 2 ^ 32 \<and>
   c_fwrapper_blocked 7 ([], 0) 2 (\<lambda>a b n. Some (1 :: nat)) 3 =
      Some (\<Sum>i<unat (7 :: u32). \<Sum>j = Suc i..<unat (7 :: u32). 1) \<and>
   c_fwrapper_blocked 7 ([], 0) 2 record_dense 3 =
      Some (image_mset (\<lambda>(i, j). Dense (snd ([] :: u64 list, 0 :: nat) + i * unat (2 :: u32))
                                      (snd ([] :: u64 list, 0 :: nat) + j * unat (2 :: u32)))
              (mset_set {(i, j). i < j \<and> j < unat (7 :: u32)}))"
proof -
  have h1: "unat (7 :: u32) < 2 ^ 31" and h2: "(unat (7 :: u32) - 1) * unat (2 :: u32) < 2 ^ 32"
    by simp_all
  from c_fwrapper_blocked_pairs_once [OF h1 h2, of "([], 0)" "\<lambda>a b n. 1 :: nat" 3] h1 h2
  show ?thesis
    by blast
qed

text \<open>
  C4 as the claim states it, for every \<open>N\<close> and \<open>W\<close>, fails.  Three vectors of \<open>2 ^ 31\<close>
  words each, block size 1: the offset of the third vector, \<open>2 * 2 ^ 31\<close>, is 0 in
  \<open>uint32_t\<close>, so the kernel gets the first vector in place of the third, for the pair
  \<open>(0, 2)\<close> and for the pair \<open>(1, 2)\<close>.  Here \<open>(N - 1) * W\<close> is \<open>2 ^ 32\<close>, the
  least that the theorem does not cover.
\<close>

theorem c_fwrapper_blocked_offsets_wrap:
  "c_fwrapper_blocked 3 ([], 0) 0x80000000 record_dense 1 =
     Some {#Dense 0 2147483648, Dense 0 0, Dense 2147483648 0#} \<and>
   {#Dense 0 2147483648, Dense 0 0, Dense 2147483648 0#} \<noteq>
     {#Dense 0 2147483648, Dense 0 4294967296, Dense 2147483648 4294967296#}"
proof -
  have "c_fwrapper_blocked 3 ([], 0) 0x80000000 record_dense 1 =
     Some {#Dense 0 2147483648, Dense 0 0, Dense 2147483648 0#}"
    by (simp add: c_fwrapper_blocked_def blocked_pairs_def diagonal_component_def
        square_component_def residual_component_def residual_tail_def strips_u32.simps
        for_u32.simps record_dense_def ptr_add_def)
  moreover have "Dense 0 0 \<in># {#Dense 0 2147483648, Dense 0 0, Dense 2147483648 0#}"
    by simp
  moreover have "Dense 0 0 \<notin># {#Dense 0 2147483648, Dense 0 4294967296, Dense 2147483648 4294967296#}"
    by simp
  ultimately show ?thesis
    by metis
qed

lemma in_sum_msetD:
  "finite A \<Longrightarrow> x \<in># (\<Sum>i\<in>A. f i) \<Longrightarrow> \<exists>i\<in>A. x \<in># f i"
  by (induction A rule: finite_induct) auto

text \<open>
  The bound on the offsets is the weakest that will do: where the last vector starts at
  \<open>2 ^ 32\<close> or beyond, the call for the first and the last vector is not the one it
  should be.
\<close>

lemma c_fwrapper_blocked_last_offset_wraps:
  assumes "unat n_vectors < 2 ^ 31" and "2 ^ 32 \<le> (unat n_vectors - 1) * unat n_ints"
  shows "c_fwrapper_blocked n_vectors vals n_ints record_dense block_size \<noteq>
    Some (image_mset (\<lambda>(i, j). Dense (snd vals + i * unat n_ints) (snd vals + j * unat n_ints))
            (mset_set {(i, j). i < j \<and> j < unat n_vectors}))"
proof
  let ?N = "unat n_vectors" and ?W = "unat n_ints"
  let ?calls = "\<Sum>i<?N. \<Sum>j = Suc i..<?N.
      {#Dense (snd vals + unat (vec_offset n_ints i)) (snd vals + unat (vec_offset n_ints j))#}"
  assume eq: "c_fwrapper_blocked n_vectors vals n_ints record_dense block_size =
    Some (image_mset (\<lambda>(i, j). Dense (snd vals + i * ?W) (snd vals + j * ?W))
            (mset_set {(i, j). i < j \<and> j < ?N}))"
  have "c_fwrapper_blocked n_vectors vals n_ints record_dense block_size = Some ?calls"
    by (rule c_fwrapper_blocked_sum [OF _ assms(1)]) (simp add: record_dense_def ptr_add_def)
  with eq have calls: "?calls = image_mset (\<lambda>(i, j). Dense (snd vals + i * ?W) (snd vals + j * ?W))
      (mset_set {(i, j). i < j \<and> j < ?N})"
    by simp
  have "0 < ?N - 1"
    using assms(2) by (cases "?N - 1") simp_all
  then have "(0, ?N - 1) \<in> {(i, j). i < j \<and> j < ?N}"
    by simp
  then have "(0, ?N - 1) \<in># mset_set {(i, j). i < j \<and> j < ?N}"
    using finite_pairs [of ?N] by simp
  then have "(\<lambda>(i, j). Dense (snd vals + i * ?W) (snd vals + j * ?W)) (0, ?N - 1) \<in>#
      image_mset (\<lambda>(i, j). Dense (snd vals + i * ?W) (snd vals + j * ?W))
        (mset_set {(i, j). i < j \<and> j < ?N})"
    by (simp only: in_image_mset) (rule imageI)
  then have "Dense (snd vals) (snd vals + (?N - 1) * ?W) \<in># ?calls"
    by (simp only: calls prod.case mult_0 add_0_right)
  then obtain i where "Dense (snd vals) (snd vals + (?N - 1) * ?W) \<in>#
      (\<Sum>j = Suc i..<?N.
        {#Dense (snd vals + unat (vec_offset n_ints i)) (snd vals + unat (vec_offset n_ints j))#})"
    by (blast dest: in_sum_msetD [rotated])
  then obtain j where "Dense (snd vals) (snd vals + (?N - 1) * ?W) \<in>#
      {#Dense (snd vals + unat (vec_offset n_ints i)) (snd vals + unat (vec_offset n_ints j))#}"
    by (blast dest: in_sum_msetD [rotated])
  then have "(?N - 1) * ?W = unat (vec_offset n_ints j)"
    by simp
  moreover have "unat (vec_offset n_ints j) < 2 ^ 32"
    using unsigned_less [of "vec_offset n_ints j", where ?'a = nat] by simp
  ultimately show False
    using assms(2) by simp
qed

section \<open>Vectors of no words\<close>

lemma intersect_bitmaps_scalar_0: "intersect_bitmaps_scalar b1 b2 0 = Some 0"
proof -
  have "and_popcount_unrolled b1 b2 0 0 0 = Some (0, 0)"
    by (subst and_popcount_unrolled.simps) (simp add: int_add_def INT_MAX_def u32_of_int_def)
  moreover have "and_popcount_tail b1 b2 0 0 0 = Some 0"
    by (subst and_popcount_tail.simps) (simp add: u32_of_int_def)
  ultimately show ?thesis
    by (simp add: intersect_bitmaps_scalar_def)
qed

lemma intersect_0_scalar:
  "intersect bld h cpuid_static inf_block data n_vectors 0 =
    c_fwrapper_blocked n_vectors data 0 intersect_bitmaps_scalar inf_block"
  by (simp add: intersect_def default_block_size_def Let_def word_le_nat_alt)

text \<open>
  C8, as the code has it.  With \<open>words_per_vector = 0\<close> and fewer than \<open>2 ^ 31\<close> vectors
  \<open>intersect\<close> returns 0, whatever block size the conversion of the infinite quotient
  \<open>256e3 / 0\<close> yields.
\<close>

theorem intersect_no_words:
  assumes "unat n_vectors < 2 ^ 31"
  shows "intersect bld h cpuid_static inf_block data n_vectors 0 = Some 0"
proof -
  have "c_fwrapper_blocked n_vectors data 0 intersect_bitmaps_scalar inf_block =
      Some (\<Sum>i<unat n_vectors. \<Sum>j = Suc i..<unat n_vectors. (0 :: u64))"
    by (rule c_fwrapper_blocked_sum [OF _ assms]) (rule intersect_bitmaps_scalar_0)
  then show ?thesis
    by (simp add: intersect_0_scalar)
qed

theorem intersect_no_words_witness:
  "unat (5 :: u32) < 2 ^ 31 \<and>
   intersect \<lparr>HAVE_SSE41 = True, HAVE_AVX2 = True, HAVE_AVX512 = True\<rparr>
     \<lparr>cpuid1_ecx = 0, cpuid7_ebx = 0, xcr0 = 0\<rparr> (- 1) 0 ([], 0) 5 0 = Some 0"
proof -
  have h: "unat (5 :: u32) < 2 ^ 31"
    by simp
  from intersect_no_words [OF h] h show ?thesis
    by blast
qed

text \<open>
  The loop over strips goes on while \<open>i + block_size <= n_vectors\<close>.  When \<open>n_vectors\<close> is
  \<open>2 ^ 32 - 1\<close> that holds for every \<open>i\<close>, the sum being taken in \<open>uint32_t\<close>, and the loop
  never exits.
\<close>

lemma strips_u32_never_exits: "strips_u32 k step (- 1) body s = None"
proof -
  have "bound \<noteq> - 1" if "strips_u32 k step bound body s = Some y" for bound y
  proof (rule strips_u32.raw_induct [where P = "\<lambda>k step bound body s y. bound \<noteq> - 1", OF _ that])
    fix strips :: "u32 \<Rightarrow> u32 \<Rightarrow> u32 \<Rightarrow> (u32 \<Rightarrow> 'a \<Rightarrow> 'a option) \<Rightarrow> 'a \<Rightarrow> (u32 \<times> 'a) option"
      and k step bound body s y
    assume IH: "\<And>k step bound body s y. strips k step bound body s = Some y \<Longrightarrow> bound \<noteq> - 1"
      and eq: "(if k + step \<le> bound then body k s \<bind> strips (k + step) step bound body
        else Some (k, s)) = Some y"
    show "bound \<noteq> - 1"
    proof
      assume "bound = - 1"
      with eq obtain s' where "strips (k + step) step bound body s' = Some y"
        by (auto simp add: bind_eq_Some_conv)
      with IH \<open>bound = - 1\<close> show False
        by blast
    qed
  qed
  then show ?thesis
    by (cases "strips_u32 k step (- 1) body s") auto
qed

text \<open>
  C8 as the claim states it, for every \<open>n_vectors > 1\<close>, fails: with \<open>2 ^ 32 - 1\<close> vectors
  of no words \<open>intersect\<close> does not return.
\<close>

theorem intersect_no_words_never_returns:
  "intersect \<lparr>HAVE_SSE41 = True, HAVE_AVX2 = True, HAVE_AVX512 = True\<rparr>
     \<lparr>cpuid1_ecx = 0, cpuid7_ebx = 0, xcr0 = 0\<rparr> (- 1) 0 ([], 0) 0xFFFFFFFF 0 = None"
proof -
  have "(0xFFFFFFFF :: u32) = - 1"
    by simp
  then show ?thesis
    by (simp only: intersect_0_scalar c_fwrapper_blocked_def blocked_pairs_def Let_def
        strips_u32_never_exits bind.bind_lzero)
qed

section \<open>The Harley-Seal kernels at 256 and 512 bits\<close>

text \<open>
  \<open>intersect_bitmaps_avx2\<close> and \<open>intersect_bitmaps_avx512_csa\<close> return the sum of the
  population counts of \<open>b1[k] & b2[k]\<close>, as the scalar kernel does.  The proof follows the
  code: lanes of registers, the blocks a round reads, the weight
  \<open>ones + 2 twos + 4 fours + 8 eights + 16 sixteens\<close> that a round of fifteen carry-save
  additions preserves, the two loops, and the two register population counts.
\<close>

subsection \<open>Lanes\<close>

lemma bit_lane:
  "bit (lane k (v :: 'a::len word) :: 'b::len word) n \<longleftrightarrow> n < LENGTH('b) \<and> bit v (k * LENGTH('b) + n)"
  by (auto simp add: lane_def bit_simps)

lemma bit_cat_lanes:
  "bit (cat_lanes (ws :: 'b::len word list) :: 'a::len word) m \<longleftrightarrow>
    m < LENGTH('a) \<and> m div LENGTH('b) < length ws \<and> bit (ws ! (m div LENGTH('b))) (m mod LENGTH('b))"
proof (induction ws arbitrary: m)
  case Nil
  show ?case by simp
next
  case (Cons w ws)
  show ?case
  proof (cases "m < LENGTH('b)")
    case True
    then show ?thesis
      by (auto simp add: bit_simps)
  next
    case False
    then have "m div LENGTH('b) = Suc ((m - LENGTH('b)) div LENGTH('b))"
      and "m mod LENGTH('b) = (m - LENGTH('b)) mod LENGTH('b)"
      by (simp_all add: le_div_geq le_mod_geq)
    with False show ?thesis
      by (auto simp add: bit_simps Cons.IH dest: bit_imp_le_length)
  qed
qed

lemma lane_cat_lanes:
  assumes "k < length ws" and "Suc k * LENGTH('b) \<le> LENGTH('a)"
  shows "lane k (cat_lanes ws :: 'a::len word) = (ws ! k :: 'b::len word)"
proof (rule bit_eqI)
  fix n
  assume "possible_bit TYPE('b word) n"
  then have n: "n < LENGTH('b)"
    by simp
  then have "k * LENGTH('b) + n < LENGTH('a)"
    using assms(2) by simp
  then show "bit (lane k (cat_lanes ws :: 'a word) :: 'b word) n \<longleftrightarrow> bit (ws ! k) n"
    using n assms(1) by (simp add: bit_lane bit_cat_lanes)
qed

lemma lanes_cat_lanes:
  assumes "length ws = LENGTH('a) div LENGTH('b)"
  shows "lanes (cat_lanes ws :: 'a::len word) = (ws :: 'b::len word list)"
proof (rule nth_equalityI)
  show "length (lanes (cat_lanes ws :: 'a word) :: 'b word list) = length ws"
    by (simp add: lanes_def assms)
  fix k
  assume "k < length (lanes (cat_lanes ws :: 'a word) :: 'b word list)"
  then have k: "k < LENGTH('a) div LENGTH('b)"
    by (simp add: lanes_def)
  then have "Suc k \<le> LENGTH('a) div LENGTH('b)"
    by simp
  then have "Suc k * LENGTH('b) \<le> LENGTH('a) div LENGTH('b) * LENGTH('b)"
    by (rule mult_le_mono1)
  also have "\<dots> \<le> LENGTH('a)"
    by simp
  finally show "(lanes (cat_lanes ws :: 'a word) :: 'b word list) ! k = ws ! k"
    using k by (simp add: lanes_def lane_cat_lanes assms)
qed

lemma popcount_sum: "popcount (w :: 'a::len word) = (\<Sum>i<LENGTH('a). of_bool (bit w i))"
proof -
  have "length (filter P [0..<n]) = (\<Sum>i<n. of_bool (P i))" for P :: "nat \<Rightarrow> bool" and n
    by (induction n) simp_all
  then show ?thesis
    by (simp add: popcount_def)
qed

lemma popcount_lanes:
  assumes "LENGTH('a) = r * LENGTH('b)"
  shows "popcount (v :: 'a::len word) = (\<Sum>k<r. popcount (lane k v :: 'b::len word))"
proof -
  have "(\<Sum>k<r. popcount (lane k v :: 'b word)) =
      (\<Sum>k<r. \<Sum>i = k * LENGTH('b)..<k * LENGTH('b) + LENGTH('b). of_bool (bit v i))"
  proof (rule sum.cong [OF refl])
    fix k
    have "popcount (lane k v :: 'b word) = (\<Sum>n<LENGTH('b). of_bool (bit v (k * LENGTH('b) + n)))"
      by (simp add: popcount_sum bit_lane)
    also have "\<dots> = (\<Sum>i = k * LENGTH('b)..<k * LENGTH('b) + LENGTH('b). of_bool (bit v i))"
      by (rule sum.reindex_bij_witness [of _ "\<lambda>i. i - k * LENGTH('b)" "\<lambda>n. k * LENGTH('b) + n"]) auto
    finally show "popcount (lane k v :: 'b word) =
        (\<Sum>i = k * LENGTH('b)..<k * LENGTH('b) + LENGTH('b). of_bool (bit v i))" .
  qed
  also have "\<dots> = (\<Sum>i<r * LENGTH('b). of_bool (bit v i))"
    by (rule sum.nat_group)
  finally show ?thesis
    by (simp add: popcount_sum assms)
qed

lemma lane_and: "lane k (a AND b) = lane k a AND lane k b"
  by (rule bit_eqI) (auto simp add: bit_lane bit_simps)

lemma popcount_csa:
  fixes a b c :: "'a::len word"
  shows "popcount (a XOR b XOR c) + 2 * popcount ((a AND b) OR ((a XOR b) AND c)) =
    popcount a + popcount b + popcount c"
  unfolding popcount_sum
  by (simp only: sum_distrib_left flip: sum.distrib, rule sum.cong [OF refl])
    (auto simp add: bit_simps)


lemma csa_round_weight:
  fixes CSA :: "'a::len word \<Rightarrow> 'a word \<Rightarrow> 'a word \<Rightarrow> 'a word \<times> 'a word"
  assumes csa: "\<And>a b c. popcount (snd (CSA a b c)) + 2 * popcount (fst (CSA a b c)) =
      popcount a + popcount b + popcount c"
    and r: "csa_round CSA d (ones, twos, fours, eights) = (ones', twos', fours', eights', sixteens')"
  shows "popcount ones' + 2 * popcount twos' + 4 * popcount fours' + 8 * popcount eights'
      + 16 * popcount sixteens' =
    popcount ones + 2 * popcount twos + 4 * popcount fours + 8 * popcount eights
      + (\<Sum>k<16. popcount (d ! k))"
proof -
  obtain twosA1 ones1 where c1: "CSA ones (d ! 0) (d ! 1) = (twosA1, ones1)"
    by (cases "CSA ones (d ! 0) (d ! 1)")
  have e1: "popcount ones1 + 2 * popcount twosA1 = popcount ones + popcount (d ! 0) + popcount (d ! 1)"
    using csa [of ones "d ! 0" "d ! 1"] by (simp only: c1 fst_conv snd_conv)
  obtain twosB1 ones2 where c2: "CSA ones1 (d ! 2) (d ! 3) = (twosB1, ones2)"
    by (cases "CSA ones1 (d ! 2) (d ! 3)")
  have e2: "popcount ones2 + 2 * popcount twosB1 = popcount ones1 + popcount (d ! 2) + popcount (d ! 3)"
    using csa [of ones1 "d ! 2" "d ! 3"] by (simp only: c2 fst_conv snd_conv)
  obtain foursA1 twos1 where c3: "CSA twos twosA1 twosB1 = (foursA1, twos1)"
    by (cases "CSA twos twosA1 twosB1")
  have e3: "popcount twos1 + 2 * popcount foursA1 = popcount twos + popcount twosA1 + popcount twosB1"
    using csa [of twos "twosA1" "twosB1"] by (simp only: c3 fst_conv snd_conv)
  obtain twosA2 ones3 where c4: "CSA ones2 (d ! 4) (d ! 5) = (twosA2, ones3)"
    by (cases "CSA ones2 (d ! 4) (d ! 5)")
  have e4: "popcount ones3 + 2 * popcount twosA2 = popcount ones2 + popcount (d ! 4) + popcount (d ! 5)"
    using csa [of ones2 "d ! 4" "d ! 5"] by (simp only: c4 fst_conv snd_conv)
  obtain twosB2 ones4 where c5: "CSA ones3 (d ! 6) (d ! 7) = (twosB2, ones4)"
    by (cases "CSA ones3 (d ! 6) (d ! 7)")
  have e5: "popcount ones4 + 2 * popcount twosB2 = popcount ones3 + popcount (d ! 6) + popcount (d ! 7)"
    using csa [of ones3 "d ! 6" "d ! 7"] by (simp only: c5 fst_conv snd_conv)
  obtain foursB1 twos2 where c6: "CSA twos1 twosA2 twosB2 = (foursB1, twos2)"
    by (cases "CSA twos1 twosA2 twosB2")
  have e6: "popcount twos2 + 2 * popcount foursB1 = popcount twos1 + popcount twosA2 + popcount twosB2"
    using csa [of twos1 "twosA2" "twosB2"] by (simp only: c6 fst_conv snd_conv)
  obtain eightsA fours1 where c7: "CSA fours foursA1 foursB1 = (eightsA, fours1)"
    by (cases "CSA fours foursA1 foursB1")
  have e7: "popcount fours1 + 2 * popcount eightsA = popcount fours + popcount foursA1 + popcount foursB1"
    using csa [of fours "foursA1" "foursB1"] by (simp only: c7 fst_conv snd_conv)
  obtain twosA3 ones5 where c8: "CSA ones4 (d ! 8) (d ! 9) = (twosA3, ones5)"
    by (cases "CSA ones4 (d ! 8) (d ! 9)")
  have e8: "popcount ones5 + 2 * popcount twosA3 = popcount ones4 + popcount (d ! 8) + popcount (d ! 9)"
    using csa [of ones4 "d ! 8" "d ! 9"] by (simp only: c8 fst_conv snd_conv)
  obtain twosB3 ones6 where c9: "CSA ones5 (d ! 10) (d ! 11) = (twosB3, ones6)"
    by (cases "CSA ones5 (d ! 10) (d ! 11)")
  have e9: "popcount ones6 + 2 * popcount twosB3 = popcount ones5 + popcount (d ! 10) + popcount (d ! 11)"
    using csa [of ones5 "d ! 10" "d ! 11"] by (simp only: c9 fst_conv snd_conv)
  obtain foursA2 twos3 where c10: "CSA twos2 twosA3 twosB3 = (foursA2, twos3)"
    by (cases "CSA twos2 twosA3 twosB3")
  have e10: "popcount twos3 + 2 * popcount foursA2 = popcount twos2 + popcount twosA3 + popcount twosB3"
    using csa [of twos2 "twosA3" "twosB3"] by (simp only: c10 fst_conv snd_conv)
  obtain twosA4 ones7 where c11: "CSA ones6 (d ! 12) (d ! 13) = (twosA4, ones7)"
    by (cases "CSA ones6 (d ! 12) (d ! 13)")
  have e11: "popcount ones7 + 2 * popcount twosA4 = popcount ones6 + popcount (d ! 12) + popcount (d ! 13)"
    using csa [of ones6 "d ! 12" "d ! 13"] by (simp only: c11 fst_conv snd_conv)
  obtain twosB4 ones8 where c12: "CSA ones7 (d ! 14) (d ! 15) = (twosB4, ones8)"
    by (cases "CSA ones7 (d ! 14) (d ! 15)")
  have e12: "popcount ones8 + 2 * popcount twosB4 = popcount ones7 + popcount (d ! 14) + popcount (d ! 15)"
    using csa [of ones7 "d ! 14" "d ! 15"] by (simp only: c12 fst_conv snd_conv)
  obtain foursB2 twos4 where c13: "CSA twos3 twosA4 twosB4 = (foursB2, twos4)"
    by (cases "CSA twos3 twosA4 twosB4")
  have e13: "popcount twos4 + 2 * popcount foursB2 = popcount twos3 + popcount twosA4 + popcount twosB4"
    using csa [of twos3 "twosA4" "twosB4"] by (simp only: c13 fst_conv snd_conv)
  obtain eightsB fours2 where c14: "CSA fours1 foursA2 foursB2 = (eightsB, fours2)"
    by (cases "CSA fours1 foursA2 foursB2")
  have e14: "popcount fours2 + 2 * popcount eightsB = popcount fours1 + popcount foursA2 + popcount foursB2"
    using csa [of fours1 "foursA2" "foursB2"] by (simp only: c14 fst_conv snd_conv)
  obtain sixteens1 eights1 where c15: "CSA eights eightsA eightsB = (sixteens1, eights1)"
    by (cases "CSA eights eightsA eightsB")
  have e15: "popcount eights1 + 2 * popcount sixteens1 = popcount eights + popcount eightsA + popcount eightsB"
    using csa [of eights "eightsA" "eightsB"] by (simp only: c15 fst_conv snd_conv)
  from r have res: "ones' = ones8" "twos' = twos4" "fours' = fours2" "eights' = eights1"
    "sixteens' = sixteens1"
    by (simp_all only: csa_round_def prod.case Let_def c1 c2 c3 c4 c5 c6 c7 c8 c9 c10 c11 c12 c13 c14 c15) simp_all
  have "(\<Sum>k<16. popcount (d ! k)) = popcount (d ! 0) + popcount (d ! 1) + popcount (d ! 2)
      + popcount (d ! 3) + popcount (d ! 4) + popcount (d ! 5) + popcount (d ! 6) + popcount (d ! 7)
      + popcount (d ! 8) + popcount (d ! 9) + popcount (d ! 10) + popcount (d ! 11)
      + popcount (d ! 12) + popcount (d ! 13) + popcount (d ! 14) + popcount (d ! 15)"
    by (simp add: eval_nat_numeral)
  then show ?thesis
    unfolding res using e1 e2 e3 e4 e5 e6 e7 e8 e9 e10 e11 e12 e13 e14 e15 by linarith
qed


lemma popcount_0: "popcount (0 :: 'a::len word) = 0"
  by (simp add: popcount_sum)

lemma lanes_0: "(lanes (0 :: 'a::len word) :: 'b::len word list) = replicate (LENGTH('a) div LENGTH('b)) 0"
  by (rule nth_equalityI) (simp_all add: lanes_def lane_def)

lemma lane_sum_0: "sum_list (lanes (0 :: 'a::len word) :: u64 list) = 0"
proof -
  have "sum_list (replicate m (0 :: u64)) = 0" for m
    by (induction m) simp_all
  then show ?thesis
    by (simp add: lanes_0)
qed

lemma length_lanes: "length (lanes (v :: 'a::len word) :: 'b::len word list) = LENGTH('a) div LENGTH('b)"
  by (simp add: lanes_def)

lemma sum_list_map2_add:
  fixes xs ys :: "'c::comm_monoid_add list"
  shows "length xs = length ys \<Longrightarrow> sum_list (map2 (+) xs ys) = sum_list xs + sum_list ys"
  by (induction xs ys rule: list_induct2) (simp_all add: ac_simps)

lemma lane_sum_add:
  "sum_list (lanes (mm_add_epi64 a b) :: u64 list) =
    sum_list (lanes a :: u64 list) + sum_list (lanes b :: u64 list)"
  by (simp add: mm_add_epi64_def lanes_cat_lanes length_lanes sum_list_map2_add)

lemma lane_sum_slli:
  "sum_list (lanes (mm_slli_epi64 v k) :: u64 list) = 2 ^ k * sum_list (lanes v :: u64 list)"
proof -
  have "sum_list (map (push_bit k) xs) = 2 ^ k * sum_list xs" for xs :: "u64 list"
    by (induction xs) (simp_all add: push_bit_eq_mult algebra_simps)
  then show ?thesis
    by (simp add: mm_slli_epi64_def lanes_cat_lanes length_lanes)
qed

lemma those_map_Some:
  "(\<And>x. x \<in> set xs \<Longrightarrow> f x = Some (g x)) \<Longrightarrow> those (map f xs) = Some (map g xs)"
  by (induction xs) simp_all

lemma load_si_in_bounds:
  assumes "in_bounds p (n * unat i + n)"
  shows "load_si n p i = Some (cat_lanes (map (\<lambda>k. word_at p (n * unat i + k)) [0..<n]))"
proof -
  have "rd p (int n * uint i + int k) = Some (word_at p (n * unat i + k))" if "k < n" for k
  proof -
    have e: "int n * uint i + int k = int (n * unat i + k)"
      by simp
    define j where "j = n * unat i + k"
    have "j < n * unat i + n"
      using that by (simp add: j_def)
    then have "rd p (int j) = Some (word_at p (nat (int j)))"
      by (intro rd_in_bounds [OF assms]) (simp_all only: nat_int of_nat_0_le_iff)
    then show ?thesis
      by (simp only: e nat_int j_def)
  qed
  then have "those (map (\<lambda>k. rd p (int n * uint i + int k)) [0..<n]) =
      Some (map (\<lambda>k. word_at p (n * unat i + k)) [0..<n])"
    by (intro those_map_Some) simp
  then show ?thesis
    by (simp add: load_si_def)
qed

lemma popcount_and_cat_lanes:
  fixes xs ys :: "u64 list"
  assumes "LENGTH('a) = n * 64" and "length xs = n" and "length ys = n"
  shows "popcount ((cat_lanes xs :: 'a::len word) AND cat_lanes ys) =
    (\<Sum>k<n. popcount (xs ! k AND ys ! k))"
proof -
  have "popcount ((cat_lanes xs :: 'a word) AND cat_lanes ys) =
      (\<Sum>k<n. popcount (lane k ((cat_lanes xs :: 'a word) AND cat_lanes ys) :: u64))"
    by (rule popcount_lanes) (simp add: assms)
  also have "\<dots> = (\<Sum>k<n. popcount (xs ! k AND ys ! k))"
  proof (rule sum.cong [OF refl])
    fix k
    assume "k \<in> {..<n}"
    then have "Suc k * 64 \<le> LENGTH('a)"
      by (simp add: assms(1))
    then show "popcount (lane k ((cat_lanes xs :: 'a word) AND cat_lanes ys) :: u64) =
        popcount (xs ! k AND ys ! k)"
      using \<open>k \<in> {..<n}\<close> by (simp add: lane_and lane_cat_lanes assms)
  qed
  finally show ?thesis .
qed

subsection \<open>The blocks of a round\<close>

lemma sum_blocks:
  fixes w :: "nat \<Rightarrow> nat"
  shows "(\<Sum>k<m. \<Sum>j = n * (u + k)..<n * (u + k) + n. w j) = (\<Sum>j = n * u..<n * u + n * m. w j)"
proof (induction m)
  case 0
  show ?case by simp
next
  case (Suc m)
  have "(\<Sum>j = n * u..<n * u + n * m. w j) + (\<Sum>j = n * u + n * m..<n * u + n * m + n. w j) =
      (\<Sum>j = n * u..<n * u + n * m + n. w j)"
    by (rule sum.atLeastLessThan_concat) simp_all
  moreover have "n * (u + m) = n * u + n * m" and "n * Suc m = n * m + n"
    by (simp_all add: algebra_simps)
  ultimately show ?case
    by (simp only: sum.lessThan_Suc Suc.IH add.assoc)
qed

lemma load_and_popcount:
  fixes data1 data2 :: "u64 ptr"
  assumes len: "LENGTH('a) = n * 64"
    and b1: "in_bounds data1 (n * unat i + n)" and b2: "in_bounds data2 (n * unat i + n)"
  shows "\<exists>a b :: 'a::len word. load_si n data1 i = Some a \<and> load_si n data2 i = Some b \<and>
    popcount (a AND b) =
      (\<Sum>j = n * unat i..<n * unat i + n. popcount (word_at data1 j AND word_at data2 j))"
proof -
  let ?a = "cat_lanes (map (\<lambda>k. word_at data1 (n * unat i + k)) [0..<n]) :: 'a word"
  let ?b = "cat_lanes (map (\<lambda>k. word_at data2 (n * unat i + k)) [0..<n]) :: 'a word"
  have "popcount (?a AND ?b) =
      (\<Sum>k<n. popcount (map (\<lambda>k. word_at data1 (n * unat i + k)) [0..<n] ! k AND
                         map (\<lambda>k. word_at data2 (n * unat i + k)) [0..<n] ! k))"
    by (rule popcount_and_cat_lanes [OF len]) simp_all
  also have "\<dots> = (\<Sum>k<n. popcount (word_at data1 (n * unat i + k) AND word_at data2 (n * unat i + k)))"
    by (rule sum.cong) simp_all
  also have "\<dots> = (\<Sum>j = n * unat i..<n * unat i + n. popcount (word_at data1 j AND word_at data2 j))"
    by (rule sum.reindex_bij_witness [where i = "\<lambda>j. j - n * unat i" and j = "\<lambda>k. n * unat i + k"]) auto
  finally show ?thesis
    using load_si_in_bounds [OF b1, where ?'a = 'a] load_si_in_bounds [OF b2, where ?'a = 'a] by simp
qed

lemma in_bounds_mono: "in_bounds p n \<Longrightarrow> m \<le> n \<Longrightarrow> in_bounds p m"
  by (simp add: in_bounds_def)

lemma and_blocks_popcount:
  fixes data1 data2 :: "u64 ptr"
  assumes len: "LENGTH('a) = n * 64"
    and b1: "in_bounds data1 (n * (unat i + 16))" and b2: "in_bounds data2 (n * (unat i + 16))"
    and i: "unat i + 16 < 2 ^ 64"
  shows "\<exists>d :: 'a::len word list. and_blocks n data1 data2 i = Some d \<and>
    (\<Sum>k<16. popcount (d ! k)) =
      (\<Sum>j = n * unat i..<n * unat i + n * 16. popcount (word_at data1 j AND word_at data2 j))"
proof -
  let ?w = "\<lambda>j. popcount (word_at data1 j AND word_at data2 j)"
  let ?f = "\<lambda>k. do {
        a \<leftarrow> load_si n data1 (i + of_nat k);
        b \<leftarrow> load_si n data2 (i + of_nat k);
        Some (a AND b :: 'a word)
      }"
  define g where "g k = the (?f k)" for k
  have ex: "\<exists>x. ?f k = Some x \<and> popcount x = (\<Sum>j = n * (unat i + k)..<n * (unat i + k) + n. ?w j)"
    if "k < 16" for k
  proof -
    have "unat (of_nat k :: u64) = k"
      using that by (simp add: unat_of_nat)
    then have u: "unat (i + of_nat k) = unat i + k"
      using that i by (subst unat_add_lem [THEN iffD1]) simp_all
    have "n * (unat i + k) + n \<le> n * (unat i + 16)"
      using that by (simp add: algebra_simps)
    then have "in_bounds data1 (n * unat (i + of_nat k) + n)" and "in_bounds data2 (n * unat (i + of_nat k) + n)"
      using b1 b2 by (simp_all only: u in_bounds_mono)
    from load_and_popcount [OF len this] obtain a b :: "'a word"
      where "load_si n data1 (i + of_nat k) = Some a" and "load_si n data2 (i + of_nat k) = Some b"
        and "popcount (a AND b) = (\<Sum>j = n * (unat i + k)..<n * (unat i + k) + n. ?w j)"
      unfolding u by blast
    then show ?thesis
      by (simp only: bind.bind_lunit) blast
  qed
  have g: "?f k = Some (g k)" if "k < 16" for k
    using ex [OF that] unfolding g_def by (elim exE conjE) (simp only: option.sel)
  have pg: "popcount (g k) = (\<Sum>j = n * (unat i + k)..<n * (unat i + k) + n. ?w j)" if "k < 16" for k
    using ex [OF that] unfolding g_def by (elim exE conjE) (simp only: option.sel)
  have "those (map ?f [0..<16]) = Some (map g [0..<16])"
    by (rule those_map_Some) (simp add: g)
  then have d: "and_blocks n data1 data2 i = Some (map g [0..<16])"
    by (simp only: and_blocks_def)
  have "(\<Sum>k<16. popcount (map g [0..<16] ! k)) = (\<Sum>k<16. popcount (g k))"
    by (rule sum.cong) simp_all
  also have "\<dots> = (\<Sum>k<16. \<Sum>j = n * (unat i + k)..<n * (unat i + k) + n. ?w j)"
    by (rule sum.cong) (simp_all add: pg)
  also have "\<dots> = (\<Sum>j = n * unat i..<n * unat i + n * 16. ?w j)"
    by (rule sum_blocks)
  finally show ?thesis
    using d by blast
qed

subsection \<open>The main loop and the last loop\<close>

lemma unat_add_16:
  fixes i limit :: u64
  assumes "unat i + 16 \<le> unat limit"
  shows "unat (i + 16) = unat i + 16"
proof -
  have "unat limit < 2 ^ 64"
    using unsigned_less [of limit, where ?'a = nat] by simp
  then have "unat i + unat (16 :: u64) < 2 ^ LENGTH(64)"
    using assms by simp
  then have "unat (i + 16) = unat i + unat (16 :: u64)"
    by (simp only: unat_add_lem [THEN iffD1])
  then show ?thesis
    by simp
qed

lemma wide_csa_loop_sum:
  fixes CSA :: "'a::len word \<Rightarrow> 'a word \<Rightarrow> 'a word \<Rightarrow> 'a word \<times> 'a word"
    and popcnt :: "'a word \<Rightarrow> 'a word" and data1 data2 :: "u64 ptr"
  assumes len: "LENGTH('a) = n * 64"
    and csa: "\<And>a b c. popcount (snd (CSA a b c)) + 2 * popcount (fst (CSA a b c)) =
        popcount a + popcount b + popcount c"
    and pc: "\<And>v. sum_list (lanes (popcnt v) :: u64 list) = of_nat (popcount v)"
    and b1: "in_bounds data1 (n * unat limit)" and b2: "in_bounds data2 (n * unat limit)"
    and dl: "16 dvd unat limit"
  shows "16 dvd unat i \<Longrightarrow> unat i \<le> unat limit \<Longrightarrow>
    \<exists>ones' twos' fours' eights' cnt'.
      wide_csa_loop n CSA popcnt data1 data2 limit i (ones, twos, fours, eights) cnt =
        Some (limit, (ones', twos', fours', eights'), cnt') \<and>
      of_nat (popcount ones' + 2 * popcount twos' + 4 * popcount fours' + 8 * popcount eights') +
          16 * sum_list (lanes cnt' :: u64 list) =
        of_nat (popcount ones + 2 * popcount twos + 4 * popcount fours + 8 * popcount eights) +
          16 * sum_list (lanes cnt :: u64 list) +
          of_nat (\<Sum>j = n * unat i..<n * unat limit. popcount (word_at data1 j AND word_at data2 j))"
proof (induction "unat limit - unat i" arbitrary: i ones twos fours eights cnt rule: less_induct)
  case less
  let ?w = "\<lambda>j. popcount (word_at data1 j AND word_at data2 j)"
  show ?case
  proof (cases "i < limit")
    case False
    then have "i = limit"
      using less.prems(2) by (simp add: word_less_nat_alt flip: word_unat_eq_iff)
    then show ?thesis
      by (subst wide_csa_loop.simps) simp
  next
    case True
    then have "unat i < unat limit"
      by (simp add: word_less_nat_alt)
    then have le: "unat i + 16 \<le> unat limit"
      using less.prems(1) dl by (elim dvdE) presburger
    have u: "unat (i + 16) = unat i + 16"
      by (rule unat_add_16 [OF le])
    have "unat limit < 2 ^ 64"
      using unsigned_less [of limit, where ?'a = nat] by simp
    then have nw: "unat i + 16 < 2 ^ 64"
      using le by simp
    have nle: "n * (unat i + 16) \<le> n * unat limit"
      using le by simp
    then have nle': "n * unat i + n * 16 \<le> n * unat limit"
      by (simp only: distrib_left)
    from nle have "in_bounds data1 (n * (unat i + 16))" and "in_bounds data2 (n * (unat i + 16))"
      using b1 b2 by (simp_all only: in_bounds_mono)
    from and_blocks_popcount [OF len this nw] obtain d :: "'a word list"
      where d: "and_blocks n data1 data2 i = Some d"
        and pd: "(\<Sum>k<16. popcount (d ! k)) = (\<Sum>j = n * unat i..<n * unat i + n * 16. ?w j)"
      by blast
    obtain ones1 twos1 fours1 eights1 sixteens
      where r: "csa_round CSA d (ones, twos, fours, eights) = (ones1, twos1, fours1, eights1, sixteens)"
      by (metis prod_cases5)
    define W0 where "W0 = popcount ones + 2 * popcount twos + 4 * popcount fours + 8 * popcount eights"
    define W1 where "W1 = popcount ones1 + 2 * popcount twos1 + 4 * popcount fours1 + 8 * popcount eights1"
    define D where "D = (\<Sum>j = n * unat i..<n * unat i + n * 16. ?w j)"
    define R where "R = (\<Sum>j = n * unat i + n * 16..<n * unat limit. ?w j)"
    define cnt1 where "cnt1 = mm_add_epi64 cnt (popcnt sixteens)"
    have A: "W1 + 16 * popcount sixteens = W0 + D"
      using csa_round_weight [OF csa r] by (simp only: W0_def W1_def D_def pd)
    have C: "sum_list (lanes cnt1 :: u64 list) = sum_list (lanes cnt :: u64 list) + of_nat (popcount sixteens)"
      by (simp only: cnt1_def lane_sum_add pc)
    have E: "D + R = (\<Sum>j = n * unat i..<n * unat limit. ?w j)"
      unfolding D_def R_def using nle' by (intro sum.atLeastLessThan_concat) simp_all
    have dec: "unat limit - unat (i + 16) < unat limit - unat i"
      using le by (simp add: u)
    have dv: "16 dvd unat (i + 16)"
      using less.prems(1) by (simp add: u)
    have le': "unat (i + 16) \<le> unat limit"
      using le by (simp only: u)
    from less.hyps [OF dec dv le', of ones1 twos1 fours1 eights1 cnt1]
    obtain ones' twos' fours' eights' cnt'
      where run: "wide_csa_loop n CSA popcnt data1 data2 limit (i + 16) (ones1, twos1, fours1, eights1) cnt1 =
          Some (limit, (ones', twos', fours', eights'), cnt')"
        and B: "of_nat (popcount ones' + 2 * popcount twos' + 4 * popcount fours' + 8 * popcount eights') +
            16 * sum_list (lanes cnt' :: u64 list) =
          of_nat W1 + 16 * sum_list (lanes cnt1 :: u64 list) + of_nat R"
      unfolding W1_def R_def u distrib_left by blast
    have "wide_csa_loop n CSA popcnt data1 data2 limit i (ones, twos, fours, eights) cnt =
        Some (limit, (ones', twos', fours', eights'), cnt')"
      by (subst wide_csa_loop.simps) (simp only: True if_True d bind.bind_lunit r prod.case run cnt1_def [symmetric])
    moreover have "of_nat W1 + 16 * sum_list (lanes cnt1 :: u64 list) + of_nat R =
        of_nat W0 + 16 * sum_list (lanes cnt :: u64 list) + (of_nat (D + R) :: u64)"
    proof -
      have "(of_nat W1 + 16 * of_nat (popcount sixteens) :: u64) = of_nat (W1 + 16 * popcount sixteens)"
        by simp
      then have F: "(of_nat W1 + 16 * of_nat (popcount sixteens) :: u64) = of_nat W0 + of_nat D"
        by (simp only: A of_nat_add)
      have "of_nat W1 + 16 * (sum_list (lanes cnt :: u64 list) + of_nat (popcount sixteens)) + of_nat R =
          (of_nat W1 + 16 * of_nat (popcount sixteens)) + 16 * sum_list (lanes cnt :: u64 list) + of_nat R"
        by (simp only: distrib_left ac_simps)
      also have "\<dots> = (of_nat W0 + of_nat D) + 16 * sum_list (lanes cnt :: u64 list) + of_nat R"
        by (simp only: F)
      also have "\<dots> = of_nat W0 + 16 * sum_list (lanes cnt :: u64 list) + (of_nat D + of_nat R)"
        by (simp only: ac_simps)
      finally show ?thesis
        by (simp only: C of_nat_add)
    qed
    ultimately show ?thesis
      using B by (simp only: E W0_def [symmetric]) blast
  qed
qed

lemma wide_tail_sum:
  fixes popcnt :: "'a::len word \<Rightarrow> 'a word" and data1 data2 :: "u64 ptr"
  assumes len: "LENGTH('a) = n * 64"
    and pc: "\<And>v. sum_list (lanes (popcnt v) :: u64 list) = of_nat (popcount v)"
    and b1: "in_bounds data1 (n * unat sz)" and b2: "in_bounds data2 (n * unat sz)"
  shows "unat i \<le> unat sz \<Longrightarrow>
    \<exists>cnt'. wide_tail n popcnt data1 data2 sz i cnt = Some cnt' \<and>
      sum_list (lanes cnt' :: u64 list) = sum_list (lanes cnt :: u64 list) +
        of_nat (\<Sum>j = n * unat i..<n * unat sz. popcount (word_at data1 j AND word_at data2 j))"
proof (induction "unat sz - unat i" arbitrary: i cnt rule: less_induct)
  case less
  let ?w = "\<lambda>j. popcount (word_at data1 j AND word_at data2 j)"
  show ?case
  proof (cases "i < sz")
    case False
    then have "i = sz"
      using less.prems by (simp add: word_less_nat_alt flip: word_unat_eq_iff)
    then show ?thesis
      by (subst wide_tail.simps) simp
  next
    case True
    then have lt: "unat i < unat sz"
      by (simp add: word_less_nat_alt)
    have u: "unat (i + 1) = Suc (unat i)"
      using True by unat_arith
    have nle: "n * unat i + n \<le> n * unat sz"
    proof -
      have "n * Suc (unat i) \<le> n * unat sz"
        using lt by (intro mult_le_mono2) simp
      then show ?thesis
        by simp
    qed
    then have "in_bounds data1 (n * unat i + n)" and "in_bounds data2 (n * unat i + n)"
      using b1 b2 by (simp_all only: in_bounds_mono)
    from load_and_popcount [OF len this] obtain a b :: "'a word"
      where a: "load_si n data1 i = Some a" and b: "load_si n data2 i = Some b"
        and pab: "popcount (a AND b) = (\<Sum>j = n * unat i..<n * unat i + n. ?w j)"
      by blast
    define D where "D = (\<Sum>j = n * unat i..<n * unat i + n. ?w j)"
    define R where "R = (\<Sum>j = n * unat i + n..<n * unat sz. ?w j)"
    define cnt1 where "cnt1 = mm_add_epi64 cnt (popcnt (a AND b))"
    have C: "sum_list (lanes cnt1 :: u64 list) = sum_list (lanes cnt :: u64 list) + of_nat D"
      by (simp only: cnt1_def lane_sum_add pc pab D_def)
    have E: "D + R = (\<Sum>j = n * unat i..<n * unat sz. ?w j)"
      unfolding D_def R_def using nle by (intro sum.atLeastLessThan_concat) simp_all
    have dec: "unat sz - unat (i + 1) < unat sz - unat i"
      using lt by (simp add: u)
    have le': "unat (i + 1) \<le> unat sz"
      using lt by (simp add: u)
    have m: "n * Suc (unat i) = n * unat i + n"
      by simp
    from less.hyps [OF dec le', of cnt1] obtain cnt'
      where run: "wide_tail n popcnt data1 data2 sz (i + 1) cnt1 = Some cnt'"
        and B: "sum_list (lanes cnt' :: u64 list) = sum_list (lanes cnt1 :: u64 list) + of_nat R"
      unfolding R_def u m by blast
    have "wide_tail n popcnt data1 data2 sz i cnt = Some cnt'"
      by (subst wide_tail.simps) (simp only: True if_True a b bind.bind_lunit run cnt1_def [symmetric])
    moreover have "sum_list (lanes cnt' :: u64 list) = sum_list (lanes cnt :: u64 list) + of_nat (D + R)"
      by (simp only: B C of_nat_add ac_simps)
    ultimately show ?thesis
      by (simp only: E) blast
  qed
qed

lemma popcnt_wide_csa_intersect_sum:
  fixes CSA :: "'a::len word \<Rightarrow> 'a word \<Rightarrow> 'a word \<Rightarrow> 'a word \<times> 'a word"
    and popcnt :: "'a word \<Rightarrow> 'a word" and data1 data2 :: "u64 ptr"
  assumes len: "LENGTH('a) = n * 64"
    and csa: "\<And>a b c. popcount (snd (CSA a b c)) + 2 * popcount (fst (CSA a b c)) =
        popcount a + popcount b + popcount c"
    and pc: "\<And>v. sum_list (lanes (popcnt v) :: u64 list) = of_nat (popcount v)"
    and b1: "in_bounds data1 (n * unat sz)" and b2: "in_bounds data2 (n * unat sz)"
  shows "popcnt_wide_csa_intersect n CSA popcnt data1 data2 sz =
    Some (of_nat (and_popcount_sum data1 data2 (n * unat sz)))"
proof -
  let ?w = "\<lambda>j. popcount (word_at data1 j AND word_at data2 j)"
  define limit where "limit = sz - sz mod 16"
  have ml: "sz mod 16 \<le> sz"
    by (simp add: word_le_nat_alt unat_mod)
  have ul: "unat limit = unat sz - unat sz mod 16"
    unfolding limit_def by (simp add: unat_sub [OF ml] unat_mod)
  then have dl: "16 dvd unat limit"
    by (simp add: dvd_minus_mod)
  have ll: "unat limit \<le> unat sz"
    by (simp add: ul)
  have "n * unat limit \<le> n * unat sz"
    using ll by simp
  then have l1: "in_bounds data1 (n * unat limit)" and l2: "in_bounds data2 (n * unat limit)"
    using b1 b2 by (simp_all only: in_bounds_mono)
  have z: "16 dvd unat (0 :: u64)" "unat (0 :: u64) \<le> unat limit"
    by simp_all
  from wide_csa_loop_sum [OF len csa pc l1 l2 dl z, of 0 0 0 0 0]
  obtain ones twos fours eights cnt
    where loop: "wide_csa_loop n CSA popcnt data1 data2 limit 0 (0, 0, 0, 0) 0 =
        Some (limit, (ones, twos, fours, eights), cnt)"
      and inv: "of_nat (popcount ones + 2 * popcount twos + 4 * popcount fours + 8 * popcount eights) +
          16 * sum_list (lanes cnt :: u64 list) = of_nat (\<Sum>j = 0..<n * unat limit. ?w j)"
    by (auto simp add: popcount_0 lane_sum_0)
  define cnt1 where "cnt1 = mm_add_epi64 (mm_add_epi64 (mm_add_epi64 (mm_add_epi64 (mm_slli_epi64 cnt 4)
      (mm_slli_epi64 (popcnt eights) 3)) (mm_slli_epi64 (popcnt fours) 2))
      (mm_slli_epi64 (popcnt twos) 1)) (popcnt ones)"
  have "sum_list (lanes cnt1 :: u64 list) =
      of_nat (popcount ones + 2 * popcount twos + 4 * popcount fours + 8 * popcount eights) +
          16 * sum_list (lanes cnt :: u64 list)"
    by (simp add: cnt1_def lane_sum_add lane_sum_slli pc)
  then have s1: "sum_list (lanes cnt1 :: u64 list) = of_nat (\<Sum>j = 0..<n * unat limit. ?w j)"
    by (simp only: inv)
  from wide_tail_sum [OF len pc b1 b2 ll, of cnt1] obtain cnt'
    where tail: "wide_tail n popcnt data1 data2 sz limit cnt1 = Some cnt'"
      and s2: "sum_list (lanes cnt' :: u64 list) = sum_list (lanes cnt1 :: u64 list) +
        of_nat (\<Sum>j = n * unat limit..<n * unat sz. ?w j)"
    by blast
  have "(\<Sum>j = 0..<n * unat limit. ?w j) + (\<Sum>j = n * unat limit..<n * unat sz. ?w j) =
      (\<Sum>j = 0..<n * unat sz. ?w j)"
    using ll by (intro sum.atLeastLessThan_concat) simp_all
  then have "sum_list (lanes cnt' :: u64 list) = of_nat (\<Sum>j = 0..<n * unat sz. ?w j)"
    by (simp only: s1 s2 flip: of_nat_add)
  then have s3: "sum_list (lanes cnt' :: u64 list) = of_nat (and_popcount_sum data1 data2 (n * unat sz))"
    by (simp only: and_popcount_sum_def lessThan_atLeast0)
  show ?thesis
    unfolding popcnt_wide_csa_intersect_def Let_def limit_def [symmetric]
    by (simp only: loop bind.bind_lunit prod.case cnt1_def [symmetric] tail s3)
qed

subsection \<open>Byte lanes of the intrinsics\<close>

text \<open>A property of all bytes is checked on the 256 of them.\<close>

lemma all_u8:
  assumes "list_all (\<lambda>n. P (of_nat n :: u8)) [0..<256]"
  shows "P x"
proof -
  have "unat x < 256"
    using unsigned_less [of x, where ?'a = nat] by simp
  then have "unat x \<in> set [0..<256]"
    by simp
  then have "P (of_nat (unat x))"
    using assms unfolding list_all_iff by blast
  then show ?thesis
    by simp
qed

lemma swar_byte:
  fixes x :: u8
  shows "unat ((let t1 = x - (drop_bit 1 x AND 0x55);
                   t2 = (t1 AND 0x33) + (drop_bit 2 t1 AND 0x33)
               in (t2 + (drop_bit 4 t2 AND 0x0F)) AND 0x0F)) = popcount x"
  by (rule all_u8 [of _ x]) code_simp


lemma lane_fits: "k < n div m \<Longrightarrow> Suc k * m \<le> (n :: nat)"
proof -
  assume "k < n div m"
  then have "Suc k \<le> n div m"
    by simp
  then have "Suc k * m \<le> n div m * m"
    by (rule mult_le_mono1)
  also have "\<dots> \<le> n"
    by simp
  finally show ?thesis .
qed

lemma lane_lanes_nth:
  "k < LENGTH('a) div LENGTH('b) \<Longrightarrow> (lanes (v :: 'a::len word) :: 'b::len word list) ! k = lane k v"
  by (simp add: lanes_def)

lemma lane_set1_epi8:
  "i < LENGTH('a) div 8 \<Longrightarrow> lane i (mm_set1_epi8 x :: 'a::len word) = x"
  unfolding mm_set1_epi8_def using lane_fits [of i "LENGTH('a)" 8]
  by (subst lane_cat_lanes) simp_all

lemma lane_setr_epi8:
  "i < length bs \<Longrightarrow> Suc i * 8 \<le> LENGTH('a) \<Longrightarrow> lane i (mm_setr_epi8 bs :: 'a::len word) = bs ! i"
  unfolding mm_setr_epi8_def by (subst lane_cat_lanes) simp_all

lemma lane_add_epi8:
  "i < LENGTH('a) div 8 \<Longrightarrow> (lane i (mm_add_epi8 a b :: 'a::len word) :: u8) = lane i a + lane i b"
  unfolding mm_add_epi8_def using lane_fits [of i "LENGTH('a)" 8]
  by (subst lane_cat_lanes) (simp_all add: length_lanes lane_lanes_nth)

lemma lane_sub_epi8:
  "i < LENGTH('a) div 8 \<Longrightarrow> (lane i (mm_sub_epi8 a b :: 'a::len word) :: u8) = lane i a - lane i b"
  unfolding mm_sub_epi8_def using lane_fits [of i "LENGTH('a)" 8]
  by (subst lane_cat_lanes) (simp_all add: length_lanes lane_lanes_nth)

lemma lane_shuffle_epi8:
  "i < LENGTH('a) div 8 \<Longrightarrow> (lane i (mm_shuffle_epi8 a b :: 'a::len word) :: u8) =
    (let s = (lane i b :: u8) in
       if bit s 7 then 0 else (lane (16 * (i div 16) + unat (s AND 0x0F)) a :: u8))"
  unfolding mm_shuffle_epi8_def using lane_fits [of i "LENGTH('a)" 8]
  by (subst lane_cat_lanes) (simp_all add: Let_def)

lemma lane_sad_epu8:
  "j < LENGTH('a) div 64 \<Longrightarrow> (lane j (mm_sad_epu8 a b :: 'a::len word) :: u64) =
    of_nat (sum_list (map (\<lambda>k. absdiff (lane (8 * j + k) a) (lane (8 * j + k) b)) [0..<8]))"
  unfolding mm_sad_epu8_def using lane_fits [of j "LENGTH('a)" 64]
  by (subst lane_cat_lanes) simp_all

lemma lane_lane:
  "k < 8 \<Longrightarrow> (lane k (lane j (v :: 'a::len word) :: u64) :: u8) = lane (8 * j + k) v"
proof (rule bit_eqI)
  fix n
  assume k: "k < 8"
  have e: "(8 * j + k) * LENGTH(8) + n = j * LENGTH(64) + (k * LENGTH(8) + n)"
    by simp
  have "n < 8 \<Longrightarrow> k * 8 + n < 64"
    using k by simp
  then show "bit (lane k (lane j v :: u64) :: u8) n \<longleftrightarrow> bit (lane (8 * j + k) v :: u8) n"
    by (simp only: bit_lane e) auto
qed

lemma lane_srli_epi16_masked:
  fixes m :: u8
  assumes i: "i < LENGTH('a) div 8" and d: "16 dvd LENGTH('a)" and k: "k \<le> 8"
    and m: "drop_bit (8 - k) m = 0"
  shows "(lane i (mm_srli_epi16 v k :: 'a::len word) :: u8) AND m = drop_bit k (lane i v :: u8) AND m"
proof (rule bit_eqI)
  fix n
  let ?ws = "map (drop_bit k) (lanes v :: u16 list)"
  have hi: "\<not> bit m n" if "8 - k \<le> n"
  proof -
    have "bit (drop_bit (8 - k) m) (n - (8 - k)) \<longleftrightarrow> bit m n"
      using that by (simp add: bit_drop_bit_eq)
    then show ?thesis
      by (simp add: m)
  qed
  show "bit ((lane i (mm_srli_epi16 v k :: 'a word) :: u8) AND m) n \<longleftrightarrow>
      bit (drop_bit k (lane i v :: u8) AND m) n"
  proof (cases "n < 8 - k")
    case False
    then show ?thesis
      using hi by (simp add: bit_and_iff)
  next
    case True
    then have n: "n < 8" and nk: "k + n < 8"
      by simp_all
    from i have f: "Suc i * 8 \<le> LENGTH('a)"
      by (rule lane_fits)
    then have lt: "i * 8 + n < LENGTH('a)"
      using n by simp
    define q where "q = i div 2"
    define b where "b = i mod 2"
    have i_eq: "i = q * 2 + b" and b: "b < 2"
      by (simp_all add: q_def b_def)
    have r: "b * 8 + n < 16"
      using b n by simp
    have s: "i * 8 + n = q * 16 + (b * 8 + n)"
      by (simp add: i_eq)
    have dm: "(i * 8 + n) div 16 = q" "(i * 8 + n) mod 16 = b * 8 + n"
      using r by (simp_all only: s div_mult_self3 mod_mult_self3) simp_all
    obtain c where c: "LENGTH('a) = 16 * c"
      using d by (elim dvdE)
    have "q * 2 + b < 2 * c"
      using i by (simp add: c i_eq)
    then have "q < c"
      by simp
    then have q': "q < LENGTH('a) div LENGTH(16)"
      by (simp add: c)
    then have ql: "q < length ?ws"
      by (simp only: length_map length_lanes)
    have e: "q * 16 + (k + (b * 8 + n)) = i * 8 + (k + n)"
      by (simp add: i_eq)
    have rk: "k + (b * 8 + n) < 16"
      using nk b by simp
    have w: "?ws ! q = drop_bit k (lane q v :: u16)"
      using q' by (simp only: nth_map length_lanes lane_lanes_nth)
    have "bit (lane i (cat_lanes ?ws :: 'a word) :: u8) n \<longleftrightarrow>
        bit (cat_lanes ?ws :: 'a word) (i * 8 + n)"
      using n by (simp add: bit_lane)
    also have "\<dots> \<longleftrightarrow> bit (drop_bit k (lane q v :: u16)) (b * 8 + n)"
      using lt ql by (simp add: bit_cat_lanes dm w del: length_map)
    also have "\<dots> \<longleftrightarrow> bit (lane q v :: u16) (k + (b * 8 + n))"
      by (simp only: bit_drop_bit_eq comp_apply)
    also have "\<dots> \<longleftrightarrow> bit v (q * 16 + (k + (b * 8 + n)))"
      using rk by (simp add: bit_lane)
    finally have "bit (lane i (cat_lanes ?ws :: 'a word) :: u8) n \<longleftrightarrow> bit v (i * 8 + (k + n))"
      by (simp only: e)
    moreover have "bit (drop_bit k (lane i v :: u8)) n \<longleftrightarrow> bit v (i * 8 + (k + n))"
      using nk by (simp add: bit_drop_bit_eq bit_lane)
    ultimately show ?thesis
      by (simp add: bit_and_iff mm_srli_epi16_def)
  qed
qed

lemma lane_sum_sad:
  fixes a b v :: "'a::len word"
  assumes len: "LENGTH('a) = r * 64"
    and ad: "\<And>i. i < LENGTH('a) div 8 \<Longrightarrow> absdiff (lane i a) (lane i b) = popcount (lane i v :: u8)"
  shows "sum_list (lanes (mm_sad_epu8 a b) :: u64 list) = of_nat (popcount v)"
proof -
  let ?f = "\<lambda>j. (of_nat (sum_list (map (\<lambda>k. absdiff (lane (8 * j + k) a) (lane (8 * j + k) b)) [0..<8])) :: u64)"
  have r: "LENGTH('a) div 64 = r" and r8: "LENGTH('a) div 8 = r * 8"
    by (simp_all add: len)
  have "lanes (mm_sad_epu8 a b) = map ?f [0..<r]"
    unfolding mm_sad_epu8_def r by (rule lanes_cat_lanes) (simp add: r)
  moreover have "?f j = of_nat (popcount (lane j v :: u64))" if "j < r" for j
  proof -
    have "absdiff (lane (8 * j + k) a) (lane (8 * j + k) b) = popcount (lane k (lane j v :: u64) :: u8)"
      if "k < 8" for k
    proof -
      have "8 * j + k < r * 8"
        using \<open>j < r\<close> that by simp
      then show ?thesis
        by (simp only: ad r8 lane_lane [OF that])
    qed
    then have m1: "map (\<lambda>k. absdiff (lane (8 * j + k) a) (lane (8 * j + k) b)) [0..<8] =
        map (\<lambda>k. popcount (lane k (lane j v :: u64) :: u8)) [0..<8]"
      by simp
    have m2: "sum_list (map (\<lambda>k. popcount (lane k (lane j v :: u64) :: u8)) [0..<8]) =
        (\<Sum>k<8. popcount (lane k (lane j v :: u64) :: u8))"
      by (simp only: interv_sum_list_conv_sum_set_nat set_upt lessThan_atLeast0)
    have m3: "popcount (lane j v :: u64) = (\<Sum>k<8. popcount (lane k (lane j v :: u64) :: u8))"
      by (rule popcount_lanes) simp
    show ?thesis
      by (simp only: m1 m2 m3)
  qed
  ultimately have "lanes (mm_sad_epu8 a b) = map (\<lambda>j. of_nat (popcount (lane j v :: u64)) :: u64) [0..<r]"
    by (simp only: map_eq_conv set_upt atLeastLessThan_iff) simp
  then have "sum_list (lanes (mm_sad_epu8 a b) :: u64 list) = (\<Sum>j<r. of_nat (popcount (lane j v :: u64)))"
    by (simp only: interv_sum_list_conv_sum_set_nat set_upt lessThan_atLeast0)
  also have "\<dots> = of_nat (\<Sum>j<r. popcount (lane j v :: u64))"
    by simp
  also have "(\<Sum>j<r. popcount (lane j v :: u64)) = popcount v"
    by (rule popcount_lanes [symmetric]) (simp add: len)
  finally show ?thesis .
qed

subsection \<open>Population count of a register\<close>

text \<open>
  \<open>popcnt512\<close> counts the bits of each byte in place (pairs, nibbles, bytes) and
  \<open>popcnt256\<close> looks the two nibbles of each byte up in tables that hold \<open>4 + n\<close> and
  \<open>4 - n\<close>; \<open>sad_epu8\<close> then adds the eight bytes of each 64-bit lane.
\<close>

lemma unat_and_0F:
  fixes x :: u8
  shows "unat (x AND 0x0F) = unat x mod 16"
  by (rule all_u8 [of _ x]) code_simp

lemma and_0F_add:
  fixes a b :: u8
  shows "(a + b) AND 0x0F = (a + (b AND 0x0F)) AND 0x0F"
proof -
  have c: "k mod 256 mod 16 = k mod 16" for k :: nat
    by (rule mod_mod_cancel) simp
  have "unat ((a + b) AND 0x0F) = (unat a + unat b) mod 16"
    by (simp only: unat_and_0F unat_word_ariths) (simp add: c)
  moreover have "unat ((a + (b AND 0x0F)) AND 0x0F) = (unat a + unat b mod 16) mod 16"
    by (simp only: unat_and_0F unat_word_ariths) (simp add: c)
  moreover have "(unat a + unat b mod 16) mod 16 = (unat a + unat b) mod 16"
    by (rule mod_add_right_eq)
  ultimately show ?thesis
    by (simp only: word_unat_eq_iff)
qed

lemma lane_0: "lane i (0 :: 'a::len word) = 0"
  by (simp add: lane_def)

lemma absdiff_0: "absdiff x 0 = unat x"
  by (simp add: absdiff_def)

lemma popcnt512_lane_sum:
  "sum_list (lanes (popcnt512 v) :: u64 list) = of_nat (popcount v)"
  unfolding popcnt512_def Let_def
proof (rule lane_sum_sad [where r = 8])
  show "LENGTH(512) = 8 * 64"
    by simp
  fix i
  assume i: "i < LENGTH(512) div 8"
  have d: "16 dvd LENGTH(512)"
    by simp
  define x :: u8 where "x = lane i v"
  define t1 :: m512i where "t1 = mm_sub_epi8 v (mm_srli_epi16 v 1 AND mm_set1_epi8 0x55)"
  define t2 :: m512i where "t2 = mm_add_epi8 (t1 AND mm_set1_epi8 0x33) (mm_srli_epi16 t1 2 AND mm_set1_epi8 0x33)"
  define y1 :: u8 where "y1 = x - (drop_bit 1 x AND 0x55)"
  define y2 :: u8 where "y2 = (y1 AND 0x33) + (drop_bit 2 y1 AND 0x33)"
  have m1: "(lane i (mm_srli_epi16 w 1 :: m512i) :: u8) AND 0x55 = drop_bit 1 (lane i w :: u8) AND 0x55" for w
    by (rule lane_srli_epi16_masked [OF i d]) simp_all
  have m2: "(lane i (mm_srli_epi16 w 2 :: m512i) :: u8) AND 0x33 = drop_bit 2 (lane i w :: u8) AND 0x33" for w
    by (rule lane_srli_epi16_masked [OF i d]) simp_all
  have m4: "(lane i (mm_srli_epi16 w 4 :: m512i) :: u8) AND 0x0F = drop_bit 4 (lane i w :: u8) AND 0x0F" for w
    by (rule lane_srli_epi16_masked [OF i d]) simp_all
  have l1: "lane i t1 = y1"
    by (simp only: t1_def y1_def x_def lane_sub_epi8 [OF i] lane_and lane_set1_epi8 [OF i] m1)
  have l2: "lane i t2 = y2"
    by (simp only: t2_def y2_def lane_add_epi8 [OF i] lane_and lane_set1_epi8 [OF i] m2 l1)
  have "(lane i (mm_add_epi8 t2 (mm_srli_epi16 t2 4) AND mm_set1_epi8 0x0F) :: u8) =
      (y2 + lane i (mm_srli_epi16 t2 4)) AND 0x0F"
    by (simp only: lane_add_epi8 [OF i] lane_and lane_set1_epi8 [OF i] l2)
  also have "\<dots> = (y2 + (drop_bit 4 y2 AND 0x0F)) AND 0x0F"
    by (subst and_0F_add) (simp only: m4 l2)
  finally have "unat (lane i (mm_add_epi8 t2 (mm_srli_epi16 t2 4) AND mm_set1_epi8 0x0F) :: u8) = popcount x"
    using swar_byte [of x] by (simp only: Let_def y1_def y2_def)
  then show "absdiff (lane i (mm_add_epi8
        (mm_add_epi8 (mm_sub_epi8 v (mm_srli_epi16 v 1 AND mm_set1_epi8 0x55) AND mm_set1_epi8 0x33)
          (mm_srli_epi16 (mm_sub_epi8 v (mm_srli_epi16 v 1 AND mm_set1_epi8 0x55)) 2 AND mm_set1_epi8 0x33))
        (mm_srli_epi16
          (mm_add_epi8 (mm_sub_epi8 v (mm_srli_epi16 v 1 AND mm_set1_epi8 0x55) AND mm_set1_epi8 0x33)
            (mm_srli_epi16 (mm_sub_epi8 v (mm_srli_epi16 v 1 AND mm_set1_epi8 0x55)) 2 AND mm_set1_epi8 0x33))
          4) AND mm_set1_epi8 0x0F)) (lane i 0) = popcount (lane i v :: u8)"
    by (simp only: lane_0 absdiff_0 t1_def t2_def x_def)
qed

lemma unat_and_0F_less:
  fixes s :: u8
  shows "unat (s AND 0x0F) < 16"
  by (simp add: unat_and_0F)

lemma lut_byte:
  fixes x :: u8
  assumes "q < 2"
  shows "absdiff
      (let s = x AND 0x0F in
         if bit s 7 then 0
         else [4, 5, 5, 6, 5, 6, 6, 7,
               5, 6, 6, 7, 6, 7, 7, 8,
               4, 5, 5, 6, 5, 6, 6, 7,
               5, 6, 6, 7, 6, 7, 7, 8] ! (16 * q + unat (s AND 0x0F)))
      (let s = drop_bit 4 x AND 0x0F in
         if bit s 7 then 0
         else [4, 3, 3, 2, 3, 2, 2, 1,
               3, 2, 2, 1, 2, 1, 1, 0,
               4, 3, 3, 2, 3, 2, 2, 1,
               3, 2, 2, 1, 2, 1, 1, 0] ! (16 * q + unat (s AND 0x0F))) = popcount x"
proof -
  from assms consider "q = 0" | "q = 1"
    by linarith
  then show ?thesis
  proof cases
    case 1
    show ?thesis
      unfolding 1 by (rule all_u8 [of _ x]) code_simp
  next
    case 2
    show ?thesis
      unfolding 2 by (rule all_u8 [of _ x]) code_simp
  qed
qed

lemma popcnt256_lane_sum:
  "sum_list (lanes (popcnt256 v) :: u64 list) = of_nat (popcount v)"
  unfolding popcnt256_def Let_def
proof (rule lane_sum_sad [where r = 4])
  show "LENGTH(256) = 4 * 64"
    by simp
  fix i
  assume i: "i < LENGTH(256) div 8"
  then have q: "i div 16 < 2"
    by simp
  have d: "16 dvd LENGTH(256)"
    by simp
  have m4: "(lane i (mm_srli_epi16 w 4 :: m256i) :: u8) AND 0x0F = drop_bit 4 (lane i w :: u8) AND 0x0F" for w
    by (rule lane_srli_epi16_masked [OF i d]) simp_all
  have t: "(lane (16 * (i div 16) + unat (s AND 0x0F)) (mm_setr_epi8 bs :: m256i) :: u8) =
      bs ! (16 * (i div 16) + unat (s AND 0x0F))" if "length bs = 32" for s :: u8 and bs
  proof (rule lane_setr_epi8)
    show "16 * (i div 16) + unat (s AND 0x0F) < length bs"
      using q unat_and_0F_less [of s] by (simp add: that)
    then show "Suc (16 * (i div 16) + unat (s AND 0x0F)) * 8 \<le> LENGTH(256)"
      by (simp add: that)
  qed
  show "absdiff
      (lane i (mm_shuffle_epi8 (mm_setr_epi8
            [4, 5, 5, 6, 5, 6, 6, 7,
             5, 6, 6, 7, 6, 7, 7, 8,
             4, 5, 5, 6, 5, 6, 6, 7,
             5, 6, 6, 7, 6, 7, 7, 8]) (v AND mm_set1_epi8 0x0f)))
      (lane i (mm_shuffle_epi8 (mm_setr_epi8
            [4, 3, 3, 2, 3, 2, 2, 1,
             3, 2, 2, 1, 2, 1, 1, 0,
             4, 3, 3, 2, 3, 2, 2, 1,
             3, 2, 2, 1, 2, 1, 1, 0]) (mm_srli_epi16 v 4 AND mm_set1_epi8 0x0f))) =
    popcount (lane i v :: u8)"
    using lut_byte [OF q, of "lane i v"]
    by (simp only: lane_shuffle_epi8 [OF i] lane_and lane_set1_epi8 [OF i] m4)
      (subst t, simp, subst t, simp, simp only:)
qed

subsection \<open>The kernels\<close>

lemma CSA256_weight:
  "popcount (snd (CSA256 a b c)) + 2 * popcount (fst (CSA256 a b c)) =
    popcount a + popcount b + popcount c"
  by (simp add: CSA256_def Let_def xor.assoc popcount_csa)

lemma CSA512_weight:
  "popcount (snd (CSA512 a b c)) + 2 * popcount (fst (CSA512 a b c)) =
    popcount a + popcount b + popcount c"
  by (simp add: CSA512_def ternarylogic_0x96 ternarylogic_0xe8 popcount_csa)

lemma unat_ucast_u32_u64: "unat (ucast (x :: u32) :: u64) = unat x"
proof -
  have "unat x < 2 ^ 32"
    using unsigned_less [of x, where ?'a = nat] by simp
  then have "unat x < 2 ^ 64"
    by simp
  then show ?thesis
    by (simp add: unsigned_ucast_eq take_bit_nat_eq_self)
qed

lemma int_of_u32_small: "unat x \<le> 2147483647 \<Longrightarrow> int_of_u32 x = int (unat x)"
proof -
  define u where "u = unat x"
  assume "unat x \<le> 2147483647"
  then have "int u < 2 ^ 31"
    by (simp add: u_def [symmetric])
  then have "signed_take_bit 31 (int u) = int u"
    by (intro signed_take_bit_int_eq_self) simp_all
  moreover have "uint x = int u"
    by (simp only: u_def uint_nat)
  ultimately show ?thesis
    by (simp add: int_of_u32_def sint_uint u_def [symmetric])
qed

lemma simd_then_tail:
  fixes n_ints c :: u32
  assumes b1: "in_bounds b1 (unat n_ints)" and b2: "in_bounds b2 (unat n_ints)"
    and n: "unat n_ints \<le> 2147483647"
    and c: "c = n_ints div m" and m: "unat m = r" "0 < r"
    and k: "K b1 b2 (ucast c) = Some (of_nat (and_popcount_sum b1 b2 (r * unat (ucast c :: u64))))"
  shows "do {
      x \<leftarrow> K b1 b2 (ucast c :: u64);
      and_popcount_tail b1 b2 n_ints (int_of_u32 (c * m)) (0 + x)
    } = Some (of_nat (and_popcount_sum b1 b2 (unat n_ints)))"
proof -
  let ?w = "\<lambda>j. popcount (word_at b1 j AND word_at b2 j)"
  have uc: "unat c = unat n_ints div r"
    by (simp add: c unat_div m)
  then have le: "unat c * r \<le> unat n_ints"
    by simp
  have "unat n_ints < 2 ^ 32"
    using n by simp
  with le have "unat c * unat m < 2 ^ LENGTH(32)"
    by (simp add: m)
  then have um: "unat (c * m) = unat c * r"
    by (simp only: unat_mult_lem [THEN iffD1] m)
  then have "unat (c * m) \<le> 2147483647"
    using le n by simp
  then have i: "int_of_u32 (c * m) = int (unat c * r)"
    by (simp only: int_of_u32_small um)
  have "and_popcount_tail b1 b2 n_ints (int (unat c * r)) (of_nat (\<Sum>j<unat c * r. ?w j)) =
      Some (of_nat (\<Sum>j<unat c * r. ?w j) + of_nat (\<Sum>j = unat c * r..<unat n_ints. ?w j))"
    by (rule and_popcount_tail_sum [OF b1 b2 n le])
  moreover have "(\<Sum>j = 0..<unat c * r. ?w j) + (\<Sum>j = unat c * r..<unat n_ints. ?w j) =
      (\<Sum>j = 0..<unat n_ints. ?w j)"
    using le by (intro sum.atLeastLessThan_concat) simp_all
  then have "(of_nat (\<Sum>j<unat c * r. ?w j) + of_nat (\<Sum>j = unat c * r..<unat n_ints. ?w j) :: u64) =
      of_nat (\<Sum>j<unat n_ints. ?w j)"
    by (simp only: lessThan_atLeast0 flip: of_nat_add)
  ultimately have "and_popcount_tail b1 b2 n_ints (int (unat c * r)) (of_nat (\<Sum>j<unat c * r. ?w j)) =
      Some (of_nat (and_popcount_sum b1 b2 (unat n_ints)))"
    by (simp only: and_popcount_sum_def)
  moreover have "r * unat (ucast c :: u64) = unat c * r"
    by (simp add: unat_ucast_u32_u64)
  ultimately show ?thesis
    by (simp only: k i bind.bind_lunit add_0 and_popcount_sum_def)
qed

lemma popcnt_avx2_csa_intersect_sum:
  assumes "in_bounds data1 (4 * unat sz)" and "in_bounds data2 (4 * unat sz)"
  shows "popcnt_avx2_csa_intersect data1 data2 sz = Some (of_nat (and_popcount_sum data1 data2 (4 * unat sz)))"
  unfolding popcnt_avx2_csa_intersect_def
  by (rule popcnt_wide_csa_intersect_sum [OF _ CSA256_weight popcnt256_lane_sum assms]) simp

lemma popcnt_avx512_csa_intersect_sum:
  assumes "in_bounds data1 (8 * unat sz)" and "in_bounds data2 (8 * unat sz)"
  shows "popcnt_avx512_csa_intersect data1 data2 sz = Some (of_nat (and_popcount_sum data1 data2 (8 * unat sz)))"
  unfolding popcnt_avx512_csa_intersect_def
  by (rule popcnt_wide_csa_intersect_sum [OF _ CSA512_weight popcnt512_lane_sum assms]) simp

lemma intersect_bitmaps_avx2_sum:
  assumes b1: "in_bounds b1 (unat n_ints)" and b2: "in_bounds b2 (unat n_ints)"
    and n: "unat n_ints \<le> 2147483647"
  shows "intersect_bitmaps_avx2 b1 b2 n_ints = Some (of_nat (and_popcount_sum b1 b2 (unat n_ints)))"
proof -
  have "4 * unat (ucast (n_ints div 4) :: u64) \<le> unat n_ints"
    by (simp add: unat_ucast_u32_u64 unat_div)
  then have "in_bounds b1 (4 * unat (ucast (n_ints div 4) :: u64))"
    and "in_bounds b2 (4 * unat (ucast (n_ints div 4) :: u64))"
    using b1 b2 by (simp_all only: in_bounds_mono)
  then have "popcnt_avx2_csa_intersect b1 b2 (ucast (n_ints div 4)) =
      Some (of_nat (and_popcount_sum b1 b2 (4 * unat (ucast (n_ints div 4) :: u64))))"
    by (rule popcnt_avx2_csa_intersect_sum)
  from simd_then_tail [where K = popcnt_avx2_csa_intersect and m = 4 and r = 4, OF b1 b2 n refl _ _ this]
  show ?thesis
    unfolding intersect_bitmaps_avx2_def Let_def by simp
qed

lemma intersect_bitmaps_avx512_csa_sum:
  assumes b1: "in_bounds b1 (unat n_ints)" and b2: "in_bounds b2 (unat n_ints)"
    and n: "unat n_ints \<le> 2147483647"
  shows "intersect_bitmaps_avx512_csa b1 b2 n_ints = Some (of_nat (and_popcount_sum b1 b2 (unat n_ints)))"
proof -
  have "8 * unat (ucast (n_ints div 8) :: u64) \<le> unat n_ints"
    by (simp add: unat_ucast_u32_u64 unat_div)
  then have "in_bounds b1 (8 * unat (ucast (n_ints div 8) :: u64))"
    and "in_bounds b2 (8 * unat (ucast (n_ints div 8) :: u64))"
    using b1 b2 by (simp_all only: in_bounds_mono)
  then have "popcnt_avx512_csa_intersect b1 b2 (ucast (n_ints div 8)) =
      Some (of_nat (and_popcount_sum b1 b2 (8 * unat (ucast (n_ints div 8) :: u64))))"
    by (rule popcnt_avx512_csa_intersect_sum)
  from simd_then_tail [where K = popcnt_avx512_csa_intersect and m = 8 and r = 8, OF b1 b2 n refl _ _ this]
  show ?thesis
    unfolding intersect_bitmaps_avx512_csa_def Let_def by simp
qed

subsection \<open>The kernel at 128 bits\<close>

text \<open>
  The main loop of \<open>popcnt_sse4_csa_intersect\<close> is right as well.  Its last loop leaves
  in the count the population count of the last block alone, so the SSE4.1 kernel returns
  the sum when there is no residual block, that is when \<open>n_ints / 2\<close> is a multiple of 16.
\<close>

lemma CSA128_weight:
  "popcount (snd (CSA128 a b c)) + 2 * popcount (fst (CSA128 a b c)) =
    popcount a + popcount b + popcount c"
  by (simp add: CSA128_def Let_def xor.assoc popcount_csa)

lemma FIC_POPCOUNT_SSE_popcount: "FIC_POPCOUNT_SSE v = of_nat (popcount v)"
proof -
  have "lane 0 (mm_unpackhi_epi64 v v) = (lane 1 v :: u64)"
    unfolding mm_unpackhi_epi64_def by (subst lane_cat_lanes) simp_all
  moreover have "popcount v = (\<Sum>k<2. popcount (lane k v :: u64))"
    by (rule popcount_lanes) simp
  then have "popcount v = popcount (lane 0 v :: u64) + popcount (lane 1 v :: u64)"
    by (simp add: numeral_2_eq_2)
  ultimately show ?thesis
    by (simp add: FIC_POPCOUNT_SSE_def FIC_POPCOUNT_def mm_cvtsi128_si64_def)
qed

lemma sse4_csa_loop_sum:
  fixes data1 data2 :: "u64 ptr"
  assumes b1: "in_bounds data1 (2 * unat limit)" and b2: "in_bounds data2 (2 * unat limit)"
    and dl: "16 dvd unat limit"
  shows "16 dvd unat i \<Longrightarrow> unat i \<le> unat limit \<Longrightarrow>
    \<exists>ones' twos' fours' eights' cnt'.
      sse4_csa_loop data1 data2 limit i (ones, twos, fours, eights) cnt =
        Some (limit, (ones', twos', fours', eights'), cnt') \<and>
      of_nat (popcount ones' + 2 * popcount twos' + 4 * popcount fours' + 8 * popcount eights') +
          16 * cnt' =
        of_nat (popcount ones + 2 * popcount twos + 4 * popcount fours + 8 * popcount eights) +
          16 * cnt +
          of_nat (\<Sum>j = 2 * unat i..<2 * unat limit. popcount (word_at data1 j AND word_at data2 j))"
proof (induction "unat limit - unat i" arbitrary: i ones twos fours eights cnt rule: less_induct)
  case less
  let ?w = "\<lambda>j. popcount (word_at data1 j AND word_at data2 j)"
  show ?case
  proof (cases "i < limit")
    case False
    then have "i = limit"
      using less.prems(2) by (simp add: word_less_nat_alt flip: word_unat_eq_iff)
    then show ?thesis
      by (subst sse4_csa_loop.simps) simp
  next
    case True
    then have "unat i < unat limit"
      by (simp add: word_less_nat_alt)
    then have le: "unat i + 16 \<le> unat limit"
      using less.prems(1) dl by (elim dvdE) presburger
    have u: "unat (i + 16) = unat i + 16"
      by (rule unat_add_16 [OF le])
    have "unat limit < 2 ^ 64"
      using unsigned_less [of limit, where ?'a = nat] by simp
    then have nw: "unat i + 16 < 2 ^ 64"
      using le by simp
    have nle: "2 * (unat i + 16) \<le> 2 * unat limit"
      using le by simp
    then have nle': "2 * unat i + 2 * 16 \<le> 2 * unat limit"
      by (simp only: distrib_left)
    from nle have "in_bounds data1 (2 * (unat i + 16))" and "in_bounds data2 (2 * (unat i + 16))"
      using b1 b2 by (simp_all only: in_bounds_mono)
    from and_blocks_popcount [OF _ this nw, where ?'a = 128] obtain d :: "m128i list"
      where d: "and_blocks 2 data1 data2 i = Some d"
        and pd: "(\<Sum>k<16. popcount (d ! k)) = (\<Sum>j = 2 * unat i..<2 * unat i + 2 * 16. ?w j)"
      by auto
    obtain ones1 twos1 fours1 eights1 sixteens
      where r: "csa_round CSA128 d (ones, twos, fours, eights) = (ones1, twos1, fours1, eights1, sixteens)"
      by (metis prod_cases5)
    define W0 where "W0 = popcount ones + 2 * popcount twos + 4 * popcount fours + 8 * popcount eights"
    define W1 where "W1 = popcount ones1 + 2 * popcount twos1 + 4 * popcount fours1 + 8 * popcount eights1"
    define D where "D = (\<Sum>j = 2 * unat i..<2 * unat i + 2 * 16. ?w j)"
    define R where "R = (\<Sum>j = 2 * unat i + 2 * 16..<2 * unat limit. ?w j)"
    define cnt1 where "cnt1 = cnt + FIC_POPCOUNT_SSE sixteens"
    have A: "W1 + 16 * popcount sixteens = W0 + D"
      using csa_round_weight [OF CSA128_weight r] by (simp only: W0_def W1_def D_def pd)
    have C: "cnt1 = cnt + of_nat (popcount sixteens)"
      by (simp only: cnt1_def FIC_POPCOUNT_SSE_popcount)
    have E: "D + R = (\<Sum>j = 2 * unat i..<2 * unat limit. ?w j)"
      unfolding D_def R_def using nle' by (intro sum.atLeastLessThan_concat) simp_all
    have dec: "unat limit - unat (i + 16) < unat limit - unat i"
      using le by (simp add: u)
    have dv: "16 dvd unat (i + 16)"
      using less.prems(1) by (simp add: u)
    have le': "unat (i + 16) \<le> unat limit"
      using le by (simp only: u)
    from less.hyps [OF dec dv le', of ones1 twos1 fours1 eights1 cnt1]
    obtain ones' twos' fours' eights' cnt'
      where run: "sse4_csa_loop data1 data2 limit (i + 16) (ones1, twos1, fours1, eights1) cnt1 =
          Some (limit, (ones', twos', fours', eights'), cnt')"
        and B: "of_nat (popcount ones' + 2 * popcount twos' + 4 * popcount fours' + 8 * popcount eights') +
            16 * cnt' = of_nat W1 + 16 * cnt1 + of_nat R"
      unfolding W1_def R_def u distrib_left by blast
    have "sse4_csa_loop data1 data2 limit i (ones, twos, fours, eights) cnt =
        Some (limit, (ones', twos', fours', eights'), cnt')"
      by (subst sse4_csa_loop.simps) (simp only: True if_True d bind.bind_lunit r prod.case run cnt1_def [symmetric])
    moreover have "of_nat W1 + 16 * cnt1 + of_nat R = of_nat W0 + 16 * cnt + (of_nat (D + R) :: u64)"
    proof -
      have "(of_nat W1 + 16 * of_nat (popcount sixteens) :: u64) = of_nat (W1 + 16 * popcount sixteens)"
        by simp
      then have F: "(of_nat W1 + 16 * of_nat (popcount sixteens) :: u64) = of_nat W0 + of_nat D"
        by (simp only: A of_nat_add)
      have "of_nat W1 + 16 * (cnt + of_nat (popcount sixteens)) + of_nat R =
          (of_nat W1 + 16 * of_nat (popcount sixteens)) + 16 * cnt + of_nat R"
        by (simp add: algebra_simps)
      also have "\<dots> = (of_nat W0 + of_nat D) + 16 * cnt + of_nat R"
        by (simp only: F)
      also have "\<dots> = of_nat W0 + 16 * cnt + (of_nat D + of_nat R)"
        by (simp only: ac_simps)
      finally show ?thesis
        by (simp only: C of_nat_add)
    qed
    ultimately show ?thesis
      using B by (simp only: E W0_def [symmetric]) blast
  qed
qed


lemma sse4_tail_last:
  fixes data1 data2 :: "u64 ptr"
  assumes b1: "in_bounds data1 (2 * unat sz)" and b2: "in_bounds data2 (2 * unat sz)"
  shows "unat i \<le> unat sz \<Longrightarrow>
    sse4_tail data1 data2 sz i cnt =
      Some (if unat i = unat sz then cnt
            else of_nat (\<Sum>j = 2 * unat sz - 2..<2 * unat sz. popcount (word_at data1 j AND word_at data2 j)))"
proof (induction "unat sz - unat i" arbitrary: i cnt rule: less_induct)
  case less
  let ?w = "\<lambda>j. popcount (word_at data1 j AND word_at data2 j)"
  show ?case
  proof (cases "i < sz")
    case False
    then have "i = sz"
      using less.prems by (simp add: word_less_nat_alt flip: word_unat_eq_iff)
    then show ?thesis
      by (subst sse4_tail.simps) simp
  next
    case True
    then have lt: "unat i < unat sz"
      by (simp add: word_less_nat_alt)
    have u: "unat (i + 1) = Suc (unat i)"
      using True by unat_arith
    have nle: "2 * unat i + 2 \<le> 2 * unat sz"
      using lt by simp
    then have "in_bounds data1 (2 * unat i + 2)" and "in_bounds data2 (2 * unat i + 2)"
      using b1 b2 by (simp_all only: in_bounds_mono)
    from load_and_popcount [OF _ this, where ?'a = 128] obtain a b :: m128i
      where a: "load_si 2 data1 i = Some a" and b: "load_si 2 data2 i = Some b"
        and pab: "popcount (a AND b) = (\<Sum>j = 2 * unat i..<2 * unat i + 2. ?w j)"
      by auto
    define cnt1 where "cnt1 = FIC_POPCOUNT_SSE (a AND b)"
    have C: "cnt1 = of_nat (\<Sum>j = 2 * unat i..<2 * unat i + 2. ?w j)"
      by (simp only: cnt1_def FIC_POPCOUNT_SSE_popcount pab)
    have dec: "unat sz - unat (i + 1) < unat sz - unat i"
      using lt by (simp add: u)
    have le': "unat (i + 1) \<le> unat sz"
      using lt by (simp add: u)
    have "sse4_tail data1 data2 sz i cnt = sse4_tail data1 data2 sz (i + 1) cnt1"
      by (subst sse4_tail.simps) (simp only: True if_True a b bind.bind_lunit cnt1_def [symmetric])
    also have "\<dots> = Some (if unat (i + 1) = unat sz then cnt1
        else of_nat (\<Sum>j = 2 * unat sz - 2..<2 * unat sz. ?w j))"
      by (rule less.hyps [OF dec le'])
    also have "(if unat (i + 1) = unat sz then cnt1
        else of_nat (\<Sum>j = 2 * unat sz - 2..<2 * unat sz. ?w j)) =
        of_nat (\<Sum>j = 2 * unat sz - 2..<2 * unat sz. ?w j)"
    proof (cases "unat (i + 1) = unat sz")
      case False
      then show ?thesis
        by simp
    next
      case eq: True
      then have "2 * unat sz - 2 = 2 * unat i" and "2 * unat sz = 2 * unat i + 2"
        by (simp_all add: u)
      then have "cnt1 = of_nat (\<Sum>j = 2 * unat sz - 2..<2 * unat sz. ?w j)"
        by (simp only: C)
      then show ?thesis
        by (simp only: if_cancel)
    qed
    finally show ?thesis
      using lt by simp
  qed
qed

lemma popcnt_sse4_csa_intersect_result:
  fixes data1 data2 :: "u64 ptr"
  assumes b1: "in_bounds data1 (2 * unat sz)" and b2: "in_bounds data2 (2 * unat sz)"
  shows "popcnt_sse4_csa_intersect data1 data2 sz =
    Some (if unat sz mod 16 = 0 then of_nat (and_popcount_sum data1 data2 (2 * unat sz))
          else of_nat (\<Sum>j = 2 * unat sz - 2..<2 * unat sz. popcount (word_at data1 j AND word_at data2 j)))"
proof -
  let ?w = "\<lambda>j. popcount (word_at data1 j AND word_at data2 j)"
  define limit where "limit = sz - sz mod 16"
  have ml: "sz mod 16 \<le> sz"
    by (simp add: word_le_nat_alt unat_mod)
  have ul: "unat limit = unat sz - unat sz mod 16"
    unfolding limit_def by (simp add: unat_sub [OF ml] unat_mod)
  then have dl: "16 dvd unat limit"
    by (simp add: dvd_minus_mod)
  have ll: "unat limit \<le> unat sz"
    by (simp add: ul)
  have "2 * unat limit \<le> 2 * unat sz"
    using ll by simp
  then have l1: "in_bounds data1 (2 * unat limit)" and l2: "in_bounds data2 (2 * unat limit)"
    using b1 b2 by (simp_all only: in_bounds_mono)
  have z: "16 dvd unat (0 :: u64)" "unat (0 :: u64) \<le> unat limit"
    by simp_all
  from sse4_csa_loop_sum [OF l1 l2 dl z, of 0 0 0 0 0]
  obtain ones twos fours eights cnt
    where loop: "sse4_csa_loop data1 data2 limit 0 (0, 0, 0, 0) 0 =
        Some (limit, (ones, twos, fours, eights), cnt)"
      and inv: "of_nat (popcount ones + 2 * popcount twos + 4 * popcount fours + 8 * popcount eights) +
          16 * cnt = of_nat (\<Sum>j = 0..<2 * unat limit. ?w j)"
    by (auto simp add: popcount_0)
  define cnt1 where "cnt1 = push_bit 4 cnt + push_bit 3 (FIC_POPCOUNT_SSE eights) +
      push_bit 2 (FIC_POPCOUNT_SSE fours) + push_bit 1 (FIC_POPCOUNT_SSE twos) +
      push_bit 0 (FIC_POPCOUNT_SSE ones)"
  have "cnt1 = of_nat (popcount ones + 2 * popcount twos + 4 * popcount fours + 8 * popcount eights) +
      16 * cnt"
    by (simp add: cnt1_def FIC_POPCOUNT_SSE_popcount push_bit_eq_mult)
  then have s1: "cnt1 = of_nat (\<Sum>j = 0..<2 * unat limit. ?w j)"
    by (simp only: inv)
  have tail: "sse4_tail data1 data2 sz limit cnt1 =
      Some (if unat limit = unat sz then cnt1 else of_nat (\<Sum>j = 2 * unat sz - 2..<2 * unat sz. ?w j))"
    by (rule sse4_tail_last [OF b1 b2 ll])
  have c: "unat limit = unat sz \<longleftrightarrow> unat sz mod 16 = 0"
  proof -
    have "unat sz mod 16 \<le> unat sz"
      by (rule mod_less_eq_dividend)
    then show ?thesis
      unfolding ul by linarith
  qed
  have "popcnt_sse4_csa_intersect data1 data2 sz =
      Some (if unat limit = unat sz then cnt1 else of_nat (\<Sum>j = 2 * unat sz - 2..<2 * unat sz. ?w j))"
    unfolding popcnt_sse4_csa_intersect_def Let_def limit_def [symmetric]
    by (simp only: loop bind.bind_lunit prod.case cnt1_def [symmetric] tail)
  moreover have "cnt1 = of_nat (and_popcount_sum data1 data2 (2 * unat sz))" if "unat limit = unat sz"
    by (simp only: s1 that and_popcount_sum_def lessThan_atLeast0)
  ultimately show ?thesis
    by (simp add: c)
qed


lemma intersect_bitmaps_sse4_sum:
  assumes b1: "in_bounds b1 (unat n_ints)" and b2: "in_bounds b2 (unat n_ints)"
    and n: "unat n_ints \<le> 2147483647" and r: "unat n_ints div 2 mod 16 = 0"
  shows "intersect_bitmaps_sse4 b1 b2 n_ints = Some (of_nat (and_popcount_sum b1 b2 (unat n_ints)))"
proof -
  have u: "unat (ucast (n_ints div 2) :: u64) = unat n_ints div 2"
    by (simp add: unat_ucast_u32_u64 unat_div)
  then have "2 * unat (ucast (n_ints div 2) :: u64) \<le> unat n_ints"
    by simp
  then have "in_bounds b1 (2 * unat (ucast (n_ints div 2) :: u64))"
    and "in_bounds b2 (2 * unat (ucast (n_ints div 2) :: u64))"
    using b1 b2 by (simp_all only: in_bounds_mono)
  from popcnt_sse4_csa_intersect_result [OF this]
  have "popcnt_sse4_csa_intersect b1 b2 (ucast (n_ints div 2)) =
      Some (of_nat (and_popcount_sum b1 b2 (2 * unat (ucast (n_ints div 2) :: u64))))"
    by (simp only: u r if_True refl)
  from simd_then_tail [where K = popcnt_sse4_csa_intersect and m = 2 and r = 2, OF b1 b2 n refl _ _ this]
  show ?thesis
    unfolding intersect_bitmaps_sse4_def Let_def by simp
qed

section \<open>The sparse kernel on position lists\<close>

text \<open>
  \<open>MOD p\<close> is \<open>p mod 2 ^ 26\<close>, and the shift takes it modulo 64: the bit that the kernel
  tests in the word \<open>p >> 6\<close> is the bit \<open>p & 63\<close>.
\<close>

lemma length_filter_upt: "length (filter P [0..<n]) = (\<Sum>i<n. of_bool (P i))"
  by (induction n) simp_all

lemma unat_MOD_mod_64: "unat (MOD p) mod 64 = unat p mod 64"
proof -
  have "unat (MOD p) = unat p * 64 mod 2 ^ 32 div 64"
    by (simp add: MOD_def unat_drop_bit_eq drop_bit_eq_div unat_word_ariths)
  also have "unat p * 64 mod 2 ^ 32 = unat p mod 2 ^ 26 * 64"
    using mult_mod_left [of "unat p" "2 ^ 26" 64, symmetric] by simp
  finally have "unat (MOD p) = unat p mod 2 ^ 26"
    by simp
  moreover have "unat p mod 2 ^ 26 mod 64 = unat p mod 64"
    by (rule mod_mod_cancel) simp
  ultimately show ?thesis
    by simp
qed

lemma and_shl_long_MOD: "w AND shl_long 1 (MOD p) \<noteq> 0 \<longleftrightarrow> bit w (unat p mod 64)"
proof -
  have "shl_long 1 (MOD p) = 2 ^ (unat p mod 64)"
    by (simp add: shl_long_def unat_MOD_mod_64 push_bit_eq_mult)
  then show ?thesis
    by (simp add: and_exp_eq_0_iff_not_bit)
qed

lemma uint_drop_bit_6: "uint (drop_bit 6 (p :: u32)) = int (unat p div 64)"
proof -
  have "unat (drop_bit 6 p) = unat p div 64"
    by (simp add: drop_bit_eq_div unat_div)
  then show ?thesis
    by (simp only: uint_nat)
qed


lemma probe_positions_count:
  assumes l: "in_bounds l (unat n)" and b: "in_bounds b W"
    and n: "unat n \<le> 2147483647"
    and p: "\<And>k. k < unat n \<Longrightarrow> unat (word_at l k) < 64 * W"
  shows "i \<le> unat n \<Longrightarrow>
    probe_positions b l n (int i) cnt =
      Some (cnt + of_nat (length (filter (\<lambda>k. bit_at b (unat (word_at l k))) [i..<unat n])))"
proof (induction "unat n - i" arbitrary: i cnt)
  case 0
  then have "i = unat n"
    by simp
  then have "\<not> u32_of_int (int i) < n"
    using n by (subst u32_of_int_less_iff) simp_all
  then show ?case
    using \<open>i = unat n\<close> by (subst probe_positions.simps) simp
next
  case (Suc m)
  define hit where "hit = (\<lambda>k. bit_at b (unat (word_at l k)))"
  from Suc have less: "i < unat n"
    by simp
  then have cond: "u32_of_int (int i) < n"
    using n by (subst u32_of_int_less_iff) simp_all
  have step: "int_add (int i) 1 = Some (int (Suc i))"
    using less n by (simp add: int_add_def INT_MAX_def)
  have rl: "rd l (int i) = Some (word_at l i)"
    using less rd_in_bounds [OF l, of "int i"] by simp
  have "unat (word_at l i) div 64 < W"
    using p [OF less] by simp
  then have rb: "rd b (uint (drop_bit 6 (word_at l i))) = Some (word_at b (unat (word_at l i) div 64))"
    using rd_in_bounds [OF b, of "int (unat (word_at l i) div 64)"]
    by (simp only: uint_drop_bit_6 nat_int)
  have t: "word_at b (unat (word_at l i) div 64) AND shl_long 1 (MOD (word_at l i)) \<noteq> 0 \<longleftrightarrow> hit i"
    by (simp only: and_shl_long_MOD hit_def bit_at_def)
  have "probe_positions b l n (int i) cnt =
      probe_positions b l n (int (Suc i)) (cnt + (if hit i then 1 else 0))"
    by (subst probe_positions.simps) (simp only: cond rl rb step if_True bind.bind_lunit t)
  also have "\<dots> = Some (cnt + (if hit i then 1 else 0) + of_nat (length (filter hit [Suc i..<unat n])))"
  proof -
    have m: "m = unat n - Suc i"
      using Suc.hyps(2) by simp
    have le: "Suc i \<le> unat n"
      using less by simp
    show ?thesis
      unfolding hit_def by (rule Suc.hyps(1) [OF m le])
  qed
  also have "cnt + (if hit i then 1 else 0) + of_nat (length (filter hit [Suc i..<unat n])) =
      cnt + of_nat (length (filter hit [i..<unat n]))"
    by (simp add: upt_conv_Cons [OF less])
  finally show ?case
    by (simp only: hit_def)
qed

lemma and_popcount_sum_filter:
  "length (filter (\<lambda>p. bit_at b1 p \<and> bit_at b2 p) [0..<64 * W]) = and_popcount_sum b1 b2 W"
proof -
  let ?g = "\<lambda>p. of_bool (bit_at b1 p \<and> bit_at b2 p) :: nat"
  have "(\<Sum>p = k * 64..<k * 64 + 64. ?g p) = popcount (word_at b1 k AND word_at b2 k)" for k
  proof -
    have "(\<Sum>p = k * 64..<k * 64 + 64. ?g p) = (\<Sum>j<64. ?g (k * 64 + j))"
      by (rule sum.reindex_bij_witness [where i = "\<lambda>j. k * 64 + j" and j = "\<lambda>p. p - k * 64"]) auto
    also have "\<dots> = (\<Sum>j<64. of_bool (bit (word_at b1 k AND word_at b2 k) j))"
      by (rule sum.cong) (simp_all add: bit_at_def bit_and_iff)
    finally show ?thesis
      by (simp add: popcount_sum)
  qed
  then have "(\<Sum>k<W. \<Sum>p = k * 64..<k * 64 + 64. ?g p) = and_popcount_sum b1 b2 W"
    by (simp add: and_popcount_sum_def)
  moreover have "(\<Sum>k<W. \<Sum>p = k * 64..<k * 64 + 64. ?g p) = (\<Sum>p<W * 64. ?g p)"
    by (rule sum.nat_group)
  moreover have "64 * W = W * 64"
    by simp
  ultimately show ?thesis
    by (simp only: length_filter_upt)
qed

lemma and_popcount_sum_card:
  "and_popcount_sum b1 b2 W = card {p. p < 64 * W \<and> bit_at b1 p \<and> bit_at b2 p}"
proof -
  have "{i. i < length [0..<64 * W] \<and> bit_at b1 ([0..<64 * W] ! i) \<and> bit_at b2 ([0..<64 * W] ! i)} =
      {p. p < 64 * W \<and> bit_at b1 p \<and> bit_at b2 p}"
    by auto
  then show ?thesis
    by (simp only: and_popcount_sum_filter [symmetric] length_filter_conv_card)
qed

lemma probe_listed_positions:
  assumes l: "in_bounds l (unat n)" and b: "in_bounds b W"
    and n: "unat n \<le> 2147483647"
    and e: "list_at l (unat n) = set_positions a W"
  shows "probe_positions b l n 0 0 = Some (of_nat (and_popcount_sum a b W))"
proof -
  have nth: "list_at l (unat n) ! k = unat (word_at l k)" if "k < unat n" for k
    using that by (simp add: list_at_def)
  have "unat (word_at l k) < 64 * W" if "k < unat n" for k
  proof -
    have "list_at l (unat n) ! k \<in> set (list_at l (unat n))"
      using that by (intro nth_mem) (simp add: list_at_def)
    then have "unat (word_at l k) \<in> set (list_at l (unat n))"
      by (simp only: nth [OF that])
    then have "unat (word_at l k) \<in> set (set_positions a W)"
      by (simp only: e)
    then show ?thesis
      by (simp add: set_positions_def)
  qed
  from probe_positions_count [OF l b n this, of 0 0]
  have "probe_positions b l n 0 0 =
      Some (of_nat (length (filter (\<lambda>k. bit_at b (unat (word_at l k))) [0..<unat n])))"
    by simp
  moreover have "length (filter (\<lambda>k. bit_at b (unat (word_at l k))) [0..<unat n]) =
      length (filter (bit_at b) (list_at l (unat n)))"
    by (simp add: list_at_def filter_map comp_def)
  moreover have "filter (bit_at b) (set_positions a W) =
      filter (\<lambda>p. bit_at a p \<and> bit_at b p) [0..<64 * W]"
    by (simp add: set_positions_def)
  ultimately show ?thesis
    by (simp only: e and_popcount_sum_filter)
qed

lemma and_popcount_sum_commute: "and_popcount_sum b1 b2 n = and_popcount_sum b2 b1 n"
  by (simp add: and_popcount_sum_def and.commute)

text \<open>
  C2, as the code has it.  Two bitmaps of \<open>n_ints\<close> words, each with the list of the
  positions of its set bits, in ascending order, and the shorter list of at most
  \<open>2 ^ 31 - 1\<close> entries: the sparse kernel returns the number of positions set in both
  bitmaps, and for \<open>n_ints\<close> up to \<open>2 ^ 31 - 4\<close> the dense kernel returns the same.
\<close>

theorem intersect_bitmaps_scalar_list_correct:
  assumes "in_bounds b1 (unat n_ints)" and "in_bounds b2 (unat n_ints)"
    and "in_bounds l1 (unat n1)" and "in_bounds l2 (unat n2)"
    and "list_at l1 (unat n1) = set_positions b1 (unat n_ints)"
    and "list_at l2 (unat n2) = set_positions b2 (unat n_ints)"
    and "unat (min n1 n2) \<le> 2147483647"
  shows "\<exists>r. intersect_bitmaps_scalar_list b1 b2 l1 l2 n1 n2 = Some r \<and>
    unat r = card {p. p < 64 * unat n_ints \<and> bit_at b1 p \<and> bit_at b2 p} \<and>
    (unat n_ints \<le> 2147483644 \<longrightarrow> intersect_bitmaps_scalar b1 b2 n_ints = Some r)"
proof -
  define r :: u64 where "r = of_nat (and_popcount_sum b1 b2 (unat n_ints))"
  have "intersect_bitmaps_scalar_list b1 b2 l1 l2 n1 n2 = Some r"
  proof (cases "n1 < n2")
    case True
    then have "n1 \<le> n2"
      by (rule order.strict_implies_order)
    then have "min n1 n2 = n1"
      by (rule min_absorb1)
    then have "unat n1 \<le> 2147483647"
      using assms(7) by simp
    from probe_listed_positions [OF assms(3) assms(2) this assms(5)] True show ?thesis
      by (simp add: intersect_bitmaps_scalar_list_def r_def)
  next
    case False
    then have "n2 \<le> n1"
      by (simp only: not_less)
    then have "min n1 n2 = n2"
      by (rule min_absorb2)
    then have "unat n2 \<le> 2147483647"
      using assms(7) by simp
    from probe_listed_positions [OF assms(4) assms(1) this assms(6)] False show ?thesis
      by (simp add: intersect_bitmaps_scalar_list_def r_def and_popcount_sum_commute [of b1 b2])
  qed
  moreover have "unat r = card {p. p < 64 * unat n_ints \<and> bit_at b1 p \<and> bit_at b2 p}"
  proof -
    have "unat n_ints < 2 ^ 32"
      using unsigned_less [of n_ints, where ?'a = nat] by simp
    then have "and_popcount_sum b1 b2 (unat n_ints) < 2 ^ 64"
      using and_popcount_sum_le [of b1 b2 "unat n_ints"] by simp
    then have "unat r = and_popcount_sum b1 b2 (unat n_ints)"
      by (simp add: r_def unat_of_nat)
    then show ?thesis
      by (simp only: and_popcount_sum_card)
  qed
  moreover have "intersect_bitmaps_scalar b1 b2 n_ints = Some r" if "unat n_ints \<le> 2147483644"
    unfolding r_def by (rule intersect_bitmaps_scalar_sum [OF assms(1, 2) that])
  ultimately show ?thesis
    by blast
qed

theorem intersect_bitmaps_scalar_list_correct_witness:
  "in_bounds ([5, 1 :: u64], 0) (unat (2 :: u32)) \<and>
   in_bounds ([6, 3 :: u64], 0) (unat (2 :: u32)) \<and>
   in_bounds ([0, 2, 64 :: u32], 0) (unat (3 :: u32)) \<and>
   in_bounds ([1, 2, 64, 65 :: u32], 0) (unat (4 :: u32)) \<and>
   list_at ([0, 2, 64], 0) (unat (3 :: u32)) = set_positions ([5, 1], 0) (unat (2 :: u32)) \<and>
   list_at ([1, 2, 64, 65], 0) (unat (4 :: u32)) = set_positions ([6, 3], 0) (unat (2 :: u32)) \<and>
   unat (min 3 4 :: u32) \<le> 2147483647 \<and>
   (\<exists>r. intersect_bitmaps_scalar_list ([5, 1], 0) ([6, 3], 0) ([0, 2, 64], 0) ([1, 2, 64, 65], 0) 3 4 =
          Some r \<and>
        unat r = card {p. p < 64 * unat (2 :: u32) \<and> bit_at ([5, 1], 0) p \<and> bit_at ([6, 3], 0) p} \<and>
        (unat (2 :: u32) \<le> 2147483644 \<longrightarrow>
           intersect_bitmaps_scalar ([5, 1], 0) ([6, 3], 0) 2 = Some r))"
proof -
  have h1: "in_bounds ([5, 1 :: u64], 0) (unat (2 :: u32))"
    and h2: "in_bounds ([6, 3 :: u64], 0) (unat (2 :: u32))"
    and h3: "in_bounds ([0, 2, 64 :: u32], 0) (unat (3 :: u32))"
    and h4: "in_bounds ([1, 2, 64, 65 :: u32], 0) (unat (4 :: u32))"
    and h7: "unat (min 3 4 :: u32) \<le> 2147483647"
    by (simp_all add: in_bounds_def)
  have h5: "list_at ([0, 2, 64], 0) (unat (3 :: u32)) = set_positions ([5, 1], 0) (unat (2 :: u32))"
    by code_simp
  have h6: "list_at ([1, 2, 64, 65], 0) (unat (4 :: u32)) = set_positions ([6, 3], 0) (unat (2 :: u32))"
    by code_simp
  from intersect_bitmaps_scalar_list_correct [OF h1 h2 h3 h4 h5 h6 h7] h1 h2 h3 h4 h5 h6 h7
  show ?thesis
    by blast
qed

text \<open>
  The two bounds are where the \<open>int\<close> counters of the two kernels leave the range of
  \<open>int\<close>: in the dense kernel \<open>i + 4\<close> for \<open>n_ints\<close> from \<open>2 ^ 31 - 3\<close> on, and in the sparse
  kernel \<open>++i\<close> when the shorter list has \<open>2 ^ 31\<close> entries or more, whatever the arrays
  hold.
\<close>

lemma probe_positions_overflow:
  assumes n: "2147483647 < unat n"
  shows "i \<le> 2147483647 \<Longrightarrow> probe_positions b l n (int i) cnt = None"
proof (induction "2147483647 - i" arbitrary: i cnt rule: less_induct)
  case less
  have "unat n < 2 ^ 32"
    using unsigned_less [of n, where ?'a = nat] by simp
  have cond: "u32_of_int (int i) < n"
    using less.prems n by (subst u32_of_int_less_iff) simp_all
  show ?case
  proof (cases "rd l (int i)")
    case None
    then show ?thesis
      by (subst probe_positions.simps) (simp add: cond)
  next
    case p: (Some p)
    show ?thesis
    proof (cases "rd b (uint (drop_bit 6 p))")
      case None
      then show ?thesis
        by (subst probe_positions.simps) (simp add: cond p)
    next
      case w: (Some w)
      show ?thesis
      proof (cases "i = 2147483647")
        case True
        then have "int_add (int i) 1 = None"
          by (simp add: int_add_def INT_MAX_def)
        then show ?thesis
          by (subst probe_positions.simps) (simp add: cond p w)
      next
        case False
        with less.prems have le: "Suc i \<le> 2147483647"
          by simp
        then have step: "int_add (int i) 1 = Some (int (Suc i))"
          by (simp add: int_add_def INT_MAX_def)
        have IH: "probe_positions b l n (int (Suc i)) c = None" for c
          using le by (intro less.hyps) simp_all
        show ?thesis
          by (subst probe_positions.simps) (simp only: cond p w step if_True bind.bind_lunit IH)
      qed
    qed
  qed
qed

lemma intersect_bitmaps_scalar_list_overflow:
  assumes "2147483647 < unat (min n1 n2)"
  shows "intersect_bitmaps_scalar_list b1 b2 l1 l2 n1 n2 = None"
proof -
  have "unat (min n1 n2) \<le> unat n1" and "unat (min n1 n2) \<le> unat n2"
    by (simp_all add: word_le_nat_alt [symmetric])
  with assms have "2147483647 < unat n1" and "2147483647 < unat n2"
    by simp_all
  then have "probe_positions b2 l1 n1 (int 0) 0 = None" and "probe_positions b1 l2 n2 (int 0) 0 = None"
    by (simp_all only: probe_positions_overflow)
  then show ?thesis
    by (simp add: intersect_bitmaps_scalar_list_def)
qed


lemma in_bounds_replicate: "in_bounds (replicate W x, 0) W"
  by (simp add: in_bounds_def)

lemma set_positions_zeros: "set_positions (replicate W 0, 0) W = []"
proof -
  have "\<not> bit_at (replicate W 0, 0) p" if "p < 64 * W" for p
    using that by (simp add: bit_at_def word_at_def)
  then show ?thesis
    by (simp add: set_positions_def)
qed

text \<open>
  C2 as the claim states it, for all bitmaps, fails.  Two bitmaps of \<open>3 * 10 ^ 9\<close> words
  with no bit set, each with the empty list of positions: the sparse kernel returns 0,
  the number of positions set in both, and the dense kernel has no defined result.
\<close>

theorem sparse_differs_from_dense_on_large_bitmaps:
  "in_bounds (replicate 3000000000 (0 :: u64), 0) (unat (3000000000 :: u32)) \<and>
   in_bounds ([] :: u32 list, 0) (unat (0 :: u32)) \<and>
   list_at ([], 0) (unat (0 :: u32)) =
     set_positions (replicate 3000000000 0, 0) (unat (3000000000 :: u32)) \<and>
   intersect_bitmaps_scalar_list (replicate 3000000000 0, 0) (replicate 3000000000 0, 0)
     ([], 0) ([], 0) 0 0 = Some 0 \<and>
   intersect_bitmaps_scalar (replicate 3000000000 0, 0) (replicate 3000000000 0, 0) 3000000000 = None"
proof -
  have n: "unat (3000000000 :: u32) = 3000000000"
    by simp
  have b1: "in_bounds (replicate 3000000000 (0 :: u64), 0) (unat (3000000000 :: u32))"
    unfolding n by (rule in_bounds_replicate)
  have b2: "in_bounds ([] :: u32 list, 0) (unat (0 :: u32))"
    by (simp add: in_bounds_def)
  have "set_positions (replicate 3000000000 0, 0) 3000000000 = []"
    by (rule set_positions_zeros)
  then have b3: "list_at ([], 0) (unat (0 :: u32)) =
      set_positions (replicate 3000000000 0, 0) (unat (3000000000 :: u32))"
    by (simp add: list_at_def n)
  have b4: "intersect_bitmaps_scalar_list (replicate 3000000000 0, 0) (replicate 3000000000 0, 0)
      ([], 0) ([], 0) 0 0 = Some 0"
    by (simp add: intersect_bitmaps_scalar_list_def probe_positions.simps u32_of_int_def)
  have "and_popcount_unrolled (replicate 3000000000 0, 0) (replicate 3000000000 0, 0) 3000000000
      (int 0) 0 = None"
    by (rule and_popcount_unrolled_overflow [OF b1 b1]) simp_all
  then have b5: "intersect_bitmaps_scalar (replicate 3000000000 0, 0) (replicate 3000000000 0, 0)
      3000000000 = None"
    by (simp add: intersect_bitmaps_scalar_def)
  from b1 b2 b3 b4 b5 show ?thesis
    by blast
qed

end
